theory Spec2Isabelle
  imports Main "HOL-Library.Word"
begin

section \<open>Filesystem utilities of \<^verbatim>\<open>src/util/Fs.cpp\<close> (namespace \<^verbatim>\<open>stellar::fs\<close>)\<close>

text \<open>
  The file has three parts: the lock registry (\<^verbatim>\<open>lockFile\<close>, \<^verbatim>\<open>unlockFile\<close> over the
  static \<^verbatim>\<open>lockMap\<close>), the path operations (\<^verbatim>\<open>exists\<close>, \<^verbatim>\<open>mkdir\<close>, \<^verbatim>\<open>mkpath\<close>) and the
  naming functions (\<^verbatim>\<open>hexStr\<close>, \<^verbatim>\<open>hexDir\<close>, \<^verbatim>\<open>baseName\<close>, \<^verbatim>\<open>remoteDir\<close>,
  \<^verbatim>\<open>remoteName\<close>). A \<^verbatim>\<open>std::string\<close> is a \<^typ>\<open>string\<close> (a list of bytes), \<^verbatim>\<open>+\<close> on
  strings is \<open>@\<close>. A \<^verbatim>\<open>throw\<close> and a failed \<^verbatim>\<open>assert\<close> are values of the type
  \<open>error\<close>, returned on the left of a sum.
\<close>

subsection \<open>Errors\<close>

text \<open>
  Every \<^verbatim>\<open>throw\<close> of the file raises a \<^verbatim>\<open>std::runtime_error\<close> with a message; \<^verbatim>\<open>assert\<close>
  is modelled as compiled in (no \<^verbatim>\<open>NDEBUG\<close>), so a false condition aborts.
\<close>

datatype error = RuntimeError string | AssertFailed

definition AlreadyLocked :: error where
  "AlreadyLocked = RuntimeError ''file is already locked by this process''"

definition NotLocked :: error where
  "NotLocked = RuntimeError ''file was not locked''"

definition AccessError :: "string \<Rightarrow> error" where
  "AccessError name = RuntimeError (''error accessing path: '' @ name)"

subsection \<open>Naming: \<^verbatim>\<open>hexStr\<close>\<close>

text \<open>
  \<^verbatim>\<open>hexStr(uint32_t checkpointNum)\<close> is \<^verbatim>\<open>fmt::format("{:08x}", checkpointNum)\<close>. The
  formatting library (\<^verbatim>\<open>lib/util/format.h\<close>) is not among the sources, so what the format
  string \<^verbatim>\<open>{:08x}\<close> does is written out here.
\<close>

text \<open>
  Modelled from the spec: the digit table of the formatting library, missing from the
  sources; "lowercase hex".
\<close>

definition hex_digit :: "nat \<Rightarrow> char" where
  "hex_digit d = ''0123456789abcdef'' ! d"

text \<open>
  Modelled from the spec: the digits that \<^verbatim>\<open>fmt::format\<close> writes for the presentation
  type \<^verbatim>\<open>x\<close>; the library is missing from the sources. The spec says "lowercase hex": the
  digits of the value in base 16 out of \<^verbatim>\<open>0123456789abcdef\<close>, the least significant
  produced first and put in front of those already there, in a do-while loop, so that 0
  has the one digit \<^verbatim>\<open>0\<close>.
\<close>

function fmt_hex_digits :: "nat \<Rightarrow> string \<Rightarrow> string" where
  "fmt_hex_digits n acc =
     (let acc' = hex_digit (n mod 16) # acc; n' = n div 16
      in if n' \<noteq> 0 then fmt_hex_digits n' acc' else acc')"
  by pat_completeness auto
termination
  by (relation "measure (\<lambda>(n, acc). n)") auto

declare fmt_hex_digits.simps [simp del]

text \<open>
  Modelled from the spec: the width and the fill of a \<^verbatim>\<open>fmt::format\<close> field, missing from
  the sources with the library. The spec says "zero-padded 8-character": a field
  narrower than the width is filled on the left, a wider one is left as it is.
\<close>

definition fmt_pad :: "nat \<Rightarrow> char \<Rightarrow> string \<Rightarrow> string" where
  "fmt_pad width fill s = replicate (width - length s) fill @ s"

text \<open>
  Modelled from the spec: \<^verbatim>\<open>fmt::format("{:08x}", n)\<close>, missing from the sources with the
  library: "zero-padded 8-character lowercase hex".
\<close>

definition fmt_08x :: "nat \<Rightarrow> string" where
  "fmt_08x n = fmt_pad 8 (CHR ''0'') (fmt_hex_digits n [])"

definition hexStr :: "32 word \<Rightarrow> string" where
  "hexStr checkpointNum = fmt_08x (unat checkpointNum)"

text \<open>
  What the claims compare \<open>hexStr\<close> with: the value of a hexadecimal numeral (digits of
  either case, \<open>None\<close> on any other character or on the empty string), and the order
  \<^verbatim>\<open>operator<\<close> of \<^verbatim>\<open>std::string\<close> (bytes compared as unsigned, a proper prefix is
  smaller).
\<close>

definition hex_val :: "char \<Rightarrow> nat option" where
  "hex_val c =
     (let k = (of_char c :: nat) in
      if 48 \<le> k \<and> k \<le> 57 then Some (k - 48)
      else if 97 \<le> k \<and> k \<le> 102 then Some (k - 87)
      else if 65 \<le> k \<and> k \<le> 70 then Some (k - 55)
      else None)"

fun hex_decode_from :: "nat \<Rightarrow> string \<Rightarrow> nat option" where
  "hex_decode_from acc [] = Some acc"
| "hex_decode_from acc (c # cs) =
     (case hex_val c of None \<Rightarrow> None | Some d \<Rightarrow> hex_decode_from (16 * acc + d) cs)"

definition hex_decode :: "string \<Rightarrow> nat option" where
  "hex_decode s = (if s = [] then None else hex_decode_from 0 s)"

fun string_less :: "string \<Rightarrow> string \<Rightarrow> bool" where
  "string_less [] [] = False"
| "string_less [] (y # ys) = True"
| "string_less (x # xs) [] = False"
| "string_less (x # xs) (y # ys) =
     ((of_char x :: nat) < of_char y \<or> (x = y \<and> string_less xs ys))"

definition is_lower_hex :: "char \<Rightarrow> bool" where
  "is_lower_hex c = (c \<in> set ''0123456789abcdef'')"

subsection \<open>Naming: \<^verbatim>\<open>hexDir\<close> and its regular expression\<close>

text \<open>
  \<^verbatim>\<open>hexDir\<close> matches its argument against
  \<^verbatim>\<open>([[:xdigit:]]{2})([[:xdigit:]]{2})([[:xdigit:]]{2}).*\<close> with \<^verbatim>\<open>std::regex_match\<close>, which
  succeeds only when the whole string matches. A \<^verbatim>\<open>std::regex\<close> built without flags uses
  the ECMAScript grammar: \<^verbatim>\<open>[[:xdigit:]]\<close> is a hexadecimal digit of either case, and
  \<^verbatim>\<open>.\<close> is any character but a line terminator (for \<^verbatim>\<open>char\<close>: line feed and carriage
  return). The fragment of the grammar the pattern needs: a capture group of a character
  class repeated a fixed number of times, and a starred character class.
\<close>

datatype cclass = XDigit | AnyChar

datatype piece = Capture cclass nat | Star cclass

definition isxdigit :: "char \<Rightarrow> bool" where
  "isxdigit c = (c \<in> set ''0123456789abcdefABCDEF'')"

definition line_terminator :: "char \<Rightarrow> bool" where
  "line_terminator c = (c = CHR 0x0A \<or> c = CHR 0x0D)"

fun cclass_match :: "cclass \<Rightarrow> char \<Rightarrow> bool" where
  "cclass_match XDigit c = isxdigit c"
| "cclass_match AnyChar c = (\<not> line_terminator c)"

fun first_some :: "'a option list \<Rightarrow> 'a option" where
  "first_some [] = None"
| "first_some (None # xs) = first_some xs"
| "first_some (Some x # xs) = Some x"

text \<open>
  \<open>regex_match ps s\<close> is the list of the captured groups when the whole of \<open>s\<close>
  matches \<open>ps\<close>. A star is greedy: it first takes every character it can and gives
  characters back, one at a time, while the rest of the pattern fails.
\<close>

fun regex_match :: "piece list \<Rightarrow> string \<Rightarrow> string list option" where
  "regex_match [] s = (if s = [] then Some [] else None)"
| "regex_match (Capture c n # ps) s =
     (if n \<le> length s \<and> list_all (cclass_match c) (take n s)
      then map_option (\<lambda>caps. take n s # caps) (regex_match ps (drop n s))
      else None)"
| "regex_match (Star c # ps) s =
     first_some (map (\<lambda>k. regex_match ps (drop k s))
       (rev [0..<Suc (length (takeWhile (cclass_match c) s))]))"

definition rx :: "piece list" where
  "rx = [Capture XDigit 2, Capture XDigit 2, Capture XDigit 2, Star AnyChar]"

text \<open>
  \<open>sm\<close> is the \<^verbatim>\<open>std::smatch\<close>: \<open>sm ! 0\<close> the whole match, \<open>sm ! 1\<close>, \<open>sm ! 2\<close>,
  \<open>sm ! 3\<close> the three groups. The parameter \<^verbatim>\<open>hexStr\<close> of the source is \<open>hex\<close> here
  and below, the name \<open>hexStr\<close> being the function's.
\<close>

definition hexDir :: "string \<Rightarrow> error + string" where
  "hexDir hex =
     (case regex_match rx hex of
        None \<Rightarrow> Inl AssertFailed
      | Some caps \<Rightarrow>
          (let sm = hex # caps
           in Inr (sm ! 1 @ ''/'' @ sm ! 2 @ ''/'' @ sm ! 3)))"

subsection \<open>Naming: \<^verbatim>\<open>baseName\<close>, \<^verbatim>\<open>remoteDir\<close>, \<^verbatim>\<open>remoteName\<close>\<close>

definition baseName :: "string \<Rightarrow> string \<Rightarrow> string \<Rightarrow> string" where
  "baseName type hex suffix = type @ ''-'' @ hex @ ''.'' @ suffix"

definition remoteDir :: "string \<Rightarrow> string \<Rightarrow> error + string" where
  "remoteDir type hex =
     (case hexDir hex of Inl e \<Rightarrow> Inl e | Inr d \<Rightarrow> Inr (type @ ''/'' @ d))"

text \<open>
  The operands of \<^verbatim>\<open>remoteDir(type, hexStr) + "/" + baseName(type, hexStr, suffix)\<close>: the
  only one that can fail is \<^verbatim>\<open>remoteDir\<close>, and \<^verbatim>\<open>baseName\<close> has no effect, so the order in
  which the compiler evaluates them does not show.
\<close>

definition remoteName :: "string \<Rightarrow> string \<Rightarrow> string \<Rightarrow> error + string" where
  "remoteName type hex suffix =
     (case remoteDir type hex of
        Inl e \<Rightarrow> Inl e
      | Inr d \<Rightarrow> Inr (d @ ''/'' @ baseName type hex suffix))"

subsection \<open>The operating system\<close>

text \<open>
  \<^verbatim>\<open>Fs.cpp\<close> has one body per platform for the lock registry, \<^verbatim>\<open>exists\<close> and \<^verbatim>\<open>mkdir\<close>
  (\<^verbatim>\<open>#ifdef _WIN32\<close>), and calls the operating system in each: \<^verbatim>\<open>open\<close>, \<^verbatim>\<open>flock\<close>,
  \<^verbatim>\<open>close\<close>, \<^verbatim>\<open>stat\<close>, \<^verbatim>\<open>mkdir\<close> on POSIX; \<^verbatim>\<open>CreateFile\<close>, \<^verbatim>\<open>CloseHandle\<close>,
  \<^verbatim>\<open>GetFileAttributes\<close>, \<^verbatim>\<open>_mkdir\<close> on Windows. None of these is code of the repository.
  They are modelled here after their documentation (POSIX.1, the \<^verbatim>\<open>flock(2)\<close> manual page,
  the Win32 API reference), as functions on a state \<open>os\<close> of the machine.

  The file system is a tree. A \<open>node\<close> is the list of the names that lead to it from the
  root; the root is the empty list and always exists, as a directory. The state holds

  \<^item> \<open>dirs\<close>: the directories that exist beside the root, in the order of their creation;
  \<^item> \<open>files\<close>: the regular files that exist;
  \<^item> \<open>cwd\<close>: the working directory of the process, where relative names start;
  \<^item> \<open>fault\<close>: for a node the system refuses to touch for a reason the model does not
    track (permissions, a read-only or full device), the error code it reports; the same
    for every call on that node;
  \<^item> \<open>foreign\<close>: the files another process holds locked (POSIX) or open (Windows);
  \<^item> \<open>handles\<close>: the open file descriptors (handles) of this process, each with its file,
    whether it holds the exclusive \<^verbatim>\<open>flock\<close>, and whether it was opened with
    \<^verbatim>\<open>FILE_FLAG_DELETE_ON_CLOSE\<close>;
  \<^item> \<open>next_handle\<close>: the number the next descriptor gets. Descriptors are never negative.

  There are no symbolic links and no second names (hard links) for a file, names are
  compared byte for byte, and \<^verbatim>\<open>/\<close> is the only separator, on both platforms: the Windows
  calls are given the name resolution of POSIX, without drive letters, backslashes or
  the folding of case. Nothing but the calls below changes the state: no other process
  acts between two calls.
\<close>

datatype platform = POSIX | WIN32

type_synonym node = "string list"

record ofd =
  ofd_node :: node
  ofd_flock :: bool
  ofd_delete_on_close :: bool

record os =
  dirs :: "node list"
  files :: "node set"
  cwd :: node
  fault :: "node \<Rightarrow> int option"
  foreign :: "node set"
  handles :: "(int \<times> ofd) list"
  next_handle :: nat

datatype sysret = Success | Failure int

definition ENOENT :: int where
  "ENOENT = 2"

definition ENOTDIR :: int where
  "ENOTDIR = 20"

definition ERROR_FILE_NOT_FOUND :: int where
  "ERROR_FILE_NOT_FOUND = 2"

definition ERROR_PATH_NOT_FOUND :: int where
  "ERROR_PATH_NOT_FOUND = 3"

definition INVALID_HANDLE_VALUE :: int where
  "INVALID_HANDLE_VALUE = - 1"

definition is_dir :: "os \<Rightarrow> node \<Rightarrow> bool" where
  "is_dir w n = (n = [] \<or> n \<in> set (dirs w))"

definition present :: "os \<Rightarrow> node \<Rightarrow> bool" where
  "present w n = (is_dir w n \<or> n \<in> files w)"

text \<open>
  Every call of the source passes \<^verbatim>\<open>name.c_str()\<close>: the system sees the string up to
  its first NUL character.
\<close>

definition c_str :: "string \<Rightarrow> string" where
  "c_str s = takeWhile (\<lambda>c. c \<noteq> CHR 0x00) s"

text \<open>
  The components of a name: the non-empty pieces between its slashes. Several slashes
  in a row count as one. \<open>split_path acc s\<close> has the characters of the piece it is
  reading in \<open>acc\<close>, last first.
\<close>

fun split_path :: "string \<Rightarrow> string \<Rightarrow> string list" where
  "split_path acc [] = (if acc = [] then [] else [rev acc])"
| "split_path acc (c # cs) =
     (if c = CHR ''/''
      then (if acc = [] then split_path [] cs else rev acc # split_path [] cs)
      else split_path (c # acc) cs)"

definition components :: "string \<Rightarrow> string list" where
  "components s = split_path [] s"

definition absolute :: "string \<Rightarrow> bool" where
  "absolute s = (s \<noteq> [] \<and> hd s = CHR ''/'')"

definition trailing_slash :: "string \<Rightarrow> bool" where
  "trailing_slash s = (s \<noteq> [] \<and> last s = CHR ''/'')"

text \<open>
  Pathname resolution. From a node, the component \<^verbatim>\<open>.\<close> leads to the node itself,
  \<^verbatim>\<open>..\<close> to the node above (the root is above itself), and any other name to the entry
  of that name. A component can be followed only from a directory: from a regular file
  the error is \<^verbatim>\<open>ENOTDIR\<close>, from a node that does not exist \<^verbatim>\<open>ENOENT\<close>. The node
  reached by the last component need not exist. An empty name is \<^verbatim>\<open>ENOENT\<close>; a name that
  begins with \<^verbatim>\<open>/\<close> starts at the root, any other at the working directory.
\<close>

definition step :: "node \<Rightarrow> string \<Rightarrow> node" where
  "step cur c = (if c = ''.'' then cur else if c = ''..'' then butlast cur else cur @ [c])"

fun resolve_from :: "os \<Rightarrow> node \<Rightarrow> string list \<Rightarrow> int + node" where
  "resolve_from w cur [] = Inr cur"
| "resolve_from w cur (c # cs) =
     (if is_dir w cur then resolve_from w (step cur c) cs
      else if cur \<in> files w then Inl ENOTDIR
      else Inl ENOENT)"

definition resolve :: "os \<Rightarrow> string \<Rightarrow> int + node" where
  "resolve w name =
     (let s = c_str name
      in if s = [] then Inl ENOENT
         else resolve_from w (if absolute s then [] else cwd w) (components s))"

text \<open>
  \<^verbatim>\<open>stat(name, &buf)\<close>: \<open>Success\<close> for the return value 0, \<open>Failure e\<close> for \<open>-1\<close> with
  \<^verbatim>\<open>errno\<close> \<open>e\<close>. A name that ends with a slash must lead to a directory.
\<close>

definition sys_stat :: "os \<Rightarrow> string \<Rightarrow> sysret" where
  "sys_stat w name =
     (case resolve w name of
        Inl e \<Rightarrow> Failure e
      | Inr n \<Rightarrow>
          (case fault w n of
             Some e \<Rightarrow> Failure e
           | None \<Rightarrow>
               if is_dir w n then Success
               else if n \<in> files w
                    then (if trailing_slash (c_str name) then Failure ENOTDIR else Success)
               else Failure ENOENT))"

text \<open>
  \<^verbatim>\<open>GetFileAttributes(name)\<close>: \<open>Failure e\<close> for \<^verbatim>\<open>INVALID_FILE_ATTRIBUTES\<close> with
  \<^verbatim>\<open>GetLastError()\<close> \<open>e\<close>. A missing last component is \<^verbatim>\<open>ERROR_FILE_NOT_FOUND\<close>; an
  empty name, or a name that cannot be followed to its last component, is
  \<^verbatim>\<open>ERROR_PATH_NOT_FOUND\<close>.
\<close>

definition win_GetFileAttributes :: "os \<Rightarrow> string \<Rightarrow> sysret" where
  "win_GetFileAttributes w name =
     (case resolve w name of
        Inl e \<Rightarrow> Failure ERROR_PATH_NOT_FOUND
      | Inr n \<Rightarrow>
          (case fault w n of
             Some e \<Rightarrow> Failure e
           | None \<Rightarrow>
               if is_dir w n then Success
               else if n \<in> files w
                    then (if trailing_slash (c_str name) then Failure ERROR_PATH_NOT_FOUND
                          else Success)
               else Failure ERROR_FILE_NOT_FOUND))"

text \<open>
  \<^verbatim>\<open>::mkdir(name, 0700)\<close> and \<^verbatim>\<open>_mkdir(name)\<close>: the return value, 0 or \<open>-1\<close>, and the new
  state. The directory is made when the name leads to a node that does not exist, in a
  directory that does, and the system does not refuse; one level only. A slash at the
  end of the name does not matter.
\<close>

definition sys_mkdir :: "os \<Rightarrow> string \<Rightarrow> int \<times> os" where
  "sys_mkdir w name =
     (case resolve w name of
        Inl e \<Rightarrow> (- 1, w)
      | Inr n \<Rightarrow>
          if fault w n = None \<and> \<not> present w n \<and> is_dir w (butlast n)
          then (0, w\<lparr>dirs := dirs w @ [n]\<rparr>)
          else (- 1, w))"

text \<open>
  \<^verbatim>\<open>open(path, O_RDWR | O_CREAT, S_IRWXU)\<close>: the descriptor, or \<open>-1\<close>, and the new state.
  The file is created when it is missing, in a directory that exists; a directory cannot
  be opened for writing, and a name that ends with a slash names no file.
\<close>

definition sys_open :: "os \<Rightarrow> string \<Rightarrow> int \<times> os" where
  "sys_open w path =
     (case resolve w path of
        Inl e \<Rightarrow> (- 1, w)
      | Inr n \<Rightarrow>
          if fault w n = None \<and> \<not> is_dir w n \<and> \<not> trailing_slash (c_str path) \<and>
             is_dir w (butlast n)
          then (let fd = int (next_handle w)
                in (fd, w\<lparr>files := insert n (files w),
                          handles := (fd, \<lparr>ofd_node = n, ofd_flock = False,
                                           ofd_delete_on_close = False\<rparr>) # handles w,
                          next_handle := Suc (next_handle w)\<rparr>))
          else (- 1, w))"

text \<open>
  \<^verbatim>\<open>flock(fd, LOCK_EX | LOCK_NB)\<close>: 0 and the lock, or \<open>-1\<close> at once when the descriptor is
  not open, or when another open file description, of another process or of this one,
  holds a lock on the same file.
\<close>

definition sys_flock :: "os \<Rightarrow> int \<Rightarrow> int \<times> os" where
  "sys_flock w fd =
     (case map_of (handles w) fd of
        None \<Rightarrow> (- 1, w)
      | Some d \<Rightarrow>
          if ofd_node d \<in> foreign w \<or>
             list_ex (\<lambda>(fd', d'). fd' \<noteq> fd \<and> ofd_node d' = ofd_node d \<and> ofd_flock d')
               (handles w)
          then (- 1, w)
          else (0, w\<lparr>handles :=
                  map (\<lambda>(fd', d'). if fd' = fd then (fd', d'\<lparr>ofd_flock := True\<rparr>) else (fd', d'))
                    (handles w)\<rparr>))"

text \<open>
  \<^verbatim>\<open>close(fd)\<close>: the descriptor is gone, and with it the lock it held. No name is removed
  from the file system.
\<close>

definition sys_close :: "os \<Rightarrow> int \<Rightarrow> os" where
  "sys_close w fd = w\<lparr>handles := filter (\<lambda>(fd', d'). fd' \<noteq> fd) (handles w)\<rparr>"

text \<open>
  \<^verbatim>\<open>CreateFile(path, GENERIC_WRITE, 0, NULL, CREATE_ALWAYS, FILE_ATTRIBUTE_NORMAL |
  FILE_ATTRIBUTE_TEMPORARY | FILE_FLAG_DELETE_ON_CLOSE, NULL)\<close>: the handle, or
  \<^verbatim>\<open>INVALID_HANDLE_VALUE\<close>, and the new state. The share mode 0 refuses a file that anyone
  has open; \<^verbatim>\<open>CREATE_ALWAYS\<close> creates the file or truncates it.
\<close>

definition win_CreateFile :: "os \<Rightarrow> string \<Rightarrow> int \<times> os" where
  "win_CreateFile w path =
     (case resolve w path of
        Inl e \<Rightarrow> (INVALID_HANDLE_VALUE, w)
      | Inr n \<Rightarrow>
          if fault w n = None \<and> \<not> is_dir w n \<and> \<not> trailing_slash (c_str path) \<and>
             is_dir w (butlast n) \<and> n \<notin> foreign w \<and>
             \<not> list_ex (\<lambda>(h', d'). ofd_node d' = n) (handles w)
          then (let h = int (next_handle w)
                in (h, w\<lparr>files := insert n (files w),
                         handles := (h, \<lparr>ofd_node = n, ofd_flock = False,
                                         ofd_delete_on_close = True\<rparr>) # handles w,
                         next_handle := Suc (next_handle w)\<rparr>))
          else (INVALID_HANDLE_VALUE, w))"

text \<open>
  \<^verbatim>\<open>CloseHandle(h)\<close>: the handle is gone; a file opened with
  \<^verbatim>\<open>FILE_FLAG_DELETE_ON_CLOSE\<close> is deleted when its handle is closed.
\<close>

definition win_CloseHandle :: "os \<Rightarrow> int \<Rightarrow> os" where
  "win_CloseHandle w h =
     (case map_of (handles w) h of
        None \<Rightarrow> w
      | Some d \<Rightarrow>
          w\<lparr>handles := filter (\<lambda>(h', d'). h' \<noteq> h) (handles w),
            files := (if ofd_delete_on_close d then files w - {ofd_node d} else files w)\<rparr>)"

subsection \<open>The lock registry: \<^verbatim>\<open>lockMap\<close>, \<^verbatim>\<open>lockFile\<close>, \<^verbatim>\<open>unlockFile\<close>\<close>

text \<open>
  \<^verbatim>\<open>static std::map<std::string, int> lockMap\<close> (a \<^verbatim>\<open>HANDLE\<close> for the \<^verbatim>\<open>int\<close> on Windows) is
  a list of entries. \<^verbatim>\<open>find\<close> gives the first entry of a key, \<^verbatim>\<open>insert\<close> adds an entry
  unless the key has one (\<^verbatim>\<open>std::map::insert\<close> never overwrites), \<^verbatim>\<open>erase(it)\<close> removes the
  entry \<^verbatim>\<open>find\<close> gave. The entries are kept in the order of insertion: the code never
  iterates over the map, so the order of the keys does not show. The state of the process
  is the table and the operating system.
\<close>

type_synonym lock_table = "(string \<times> int) list"

definition smap_find :: "lock_table \<Rightarrow> string \<Rightarrow> int option" where
  "smap_find m k = map_of m k"

definition smap_insert :: "lock_table \<Rightarrow> string \<Rightarrow> int \<Rightarrow> lock_table" where
  "smap_insert m k v = (if map_of m k = None then m @ [(k, v)] else m)"

fun smap_erase :: "lock_table \<Rightarrow> string \<Rightarrow> lock_table" where
  "smap_erase [] k = []"
| "smap_erase ((k', v) # m) k = (if k' = k then m else (k', v) # smap_erase m k)"

record state =
  world :: os
  lockMap :: lock_table

text \<open>
  A \<^verbatim>\<open>throw\<close> comes before any change of the state in both functions, so an error carries
  no state: the state is the one before the call.
\<close>

definition lockFile_posix :: "state \<Rightarrow> string \<Rightarrow> error + bool \<times> state" where
  "lockFile_posix s path =
     (if smap_find (lockMap s) path \<noteq> None then Inl AlreadyLocked
      else
        (let (fd, w1) = sys_open (world s) path;
             (fd', w', m') =
               (if fd \<noteq> - 1
                then (let (r, w2) = sys_flock w1 fd
                      in if r = 0 then (fd, w2, smap_insert (lockMap s) path fd)
                         else (- 1, sys_close w2 fd, lockMap s))
                else (fd, w1, lockMap s))
         in Inr (fd' \<noteq> - 1, \<lparr>world = w', lockMap = m'\<rparr>)))"

definition unlockFile_posix :: "state \<Rightarrow> string \<Rightarrow> error + state" where
  "unlockFile_posix s path =
     (case smap_find (lockMap s) path of
        Some fd \<Rightarrow>
          Inr \<lparr>world = sys_close (world s) fd, lockMap = smap_erase (lockMap s) path\<rparr>
      | None \<Rightarrow> Inl NotLocked)"

definition lockFile_win32 :: "state \<Rightarrow> string \<Rightarrow> error + bool \<times> state" where
  "lockFile_win32 s path =
     (if smap_find (lockMap s) path \<noteq> None then Inl AlreadyLocked
      else
        (let (h, w1) = win_CreateFile (world s) path;
             m' = (if h \<noteq> INVALID_HANDLE_VALUE then smap_insert (lockMap s) path h
                   else lockMap s)
         in Inr (h \<noteq> INVALID_HANDLE_VALUE, \<lparr>world = w1, lockMap = m'\<rparr>)))"

definition unlockFile_win32 :: "state \<Rightarrow> string \<Rightarrow> error + state" where
  "unlockFile_win32 s path =
     (case smap_find (lockMap s) path of
        Some h \<Rightarrow>
          Inr \<lparr>world = win_CloseHandle (world s) h, lockMap = smap_erase (lockMap s) path\<rparr>
      | None \<Rightarrow> Inl NotLocked)"

fun lockFile :: "platform \<Rightarrow> state \<Rightarrow> string \<Rightarrow> error + bool \<times> state" where
  "lockFile POSIX = lockFile_posix"
| "lockFile WIN32 = lockFile_win32"

fun unlockFile :: "platform \<Rightarrow> state \<Rightarrow> string \<Rightarrow> error + state" where
  "unlockFile POSIX = unlockFile_posix"
| "unlockFile WIN32 = unlockFile_win32"

text \<open>
  What the operating system answers to the calls \<^verbatim>\<open>lockFile\<close> makes for a path, in a
  state of the machine: on POSIX whether \<^verbatim>\<open>open\<close> gives a descriptor and \<^verbatim>\<open>flock\<close> on it
  returns 0, on Windows whether \<^verbatim>\<open>CreateFile\<close> gives a handle.
\<close>

definition os_grants_posix :: "os \<Rightarrow> string \<Rightarrow> bool" where
  "os_grants_posix w path =
     (let (fd, w1) = sys_open w path in fd \<noteq> - 1 \<and> fst (sys_flock w1 fd) = 0)"

definition os_grants_win32 :: "os \<Rightarrow> string \<Rightarrow> bool" where
  "os_grants_win32 w path = (fst (win_CreateFile w path) \<noteq> INVALID_HANDLE_VALUE)"

fun os_grants :: "platform \<Rightarrow> os \<Rightarrow> string \<Rightarrow> bool" where
  "os_grants POSIX = os_grants_posix"
| "os_grants WIN32 = os_grants_win32"

text \<open>
  Sequences of calls, for the properties that hold "after every sequence of operations":
  a caller that catches the error of a call goes on in the state before the call.
\<close>

datatype lock_op = Acquire string | Release string

fun apply_op :: "platform \<Rightarrow> state \<Rightarrow> lock_op \<Rightarrow> state" where
  "apply_op plat s (Acquire p) =
     (case lockFile plat s p of Inl e \<Rightarrow> s | Inr (b, s') \<Rightarrow> s')"
| "apply_op plat s (Release p) =
     (case unlockFile plat s p of Inl e \<Rightarrow> s | Inr s' \<Rightarrow> s')"

definition run :: "platform \<Rightarrow> state \<Rightarrow> lock_op list \<Rightarrow> state" where
  "run plat s ops = foldl (apply_op plat) s ops"

definition keys :: "lock_table \<Rightarrow> string set" where
  "keys m = fst ` set m"

text \<open>
  The descriptor table of a machine is in order when no two of its entries have the same
  number and every number is below the next one to be given out. The calls above keep
  it so.
\<close>

definition os_wf :: "os \<Rightarrow> bool" where
  "os_wf w =
     (distinct (map fst (handles w)) \<and>
      list_all (\<lambda>(fd, d). fd < int (next_handle w)) (handles w))"

text \<open>
  The machine with nothing in it and no fault, the working directory at the root, the
  descriptors 0, 1 and 2 taken; and the process at its start.
\<close>

definition os_empty :: os where
  "os_empty = \<lparr>dirs = [], files = {}, cwd = [], fault = (\<lambda>n. None), foreign = {},
                handles = [], next_handle = 3\<rparr>"

definition state_init :: state where
  "state_init = \<lparr>world = os_empty, lockMap = []\<rparr>"

subsection \<open>Path operations: \<^verbatim>\<open>exists\<close>, \<^verbatim>\<open>mkdir\<close>, \<^verbatim>\<open>mkpath\<close>\<close>

definition exists_posix :: "os \<Rightarrow> string \<Rightarrow> error + bool" where
  "exists_posix w name =
     (case sys_stat w name of
        Failure errno \<Rightarrow> if errno = ENOENT then Inr False else Inl (AccessError name)
      | Success \<Rightarrow> Inr True)"

definition exists_win32 :: "os \<Rightarrow> string \<Rightarrow> error + bool" where
  "exists_win32 w name =
     (if name = [] then Inr False
      else case win_GetFileAttributes w name of
        Failure last_error \<Rightarrow>
          if last_error = ERROR_FILE_NOT_FOUND then Inr False else Inl (AccessError name)
      | Success \<Rightarrow> Inr True)"

fun exists :: "platform \<Rightarrow> os \<Rightarrow> string \<Rightarrow> error + bool" where
  "exists POSIX = exists_posix"
| "exists WIN32 = exists_win32"

text \<open>
  \<^verbatim>\<open>mkdir\<close> is the same on both platforms but for the name of the call; the log line it
  writes is left out.
\<close>

definition mkdir :: "os \<Rightarrow> string \<Rightarrow> bool \<times> os" where
  "mkdir w name = (let (r, w') = sys_mkdir w name in (r = 0, w'))"

text \<open>
  \<^verbatim>\<open>path.find('/', pos)\<close>: the first position from \<open>pos\<close> on that holds the character,
  \<open>None\<close> for \<^verbatim>\<open>npos\<close>.
\<close>

definition string_find :: "string \<Rightarrow> char \<Rightarrow> nat \<Rightarrow> nat option" where
  "string_find s c pos =
     (let n = length (takeWhile (\<lambda>x. x \<noteq> c) (drop pos s))
      in if pos + n < length s then Some (pos + n) else None)"

text \<open>
  The loop of \<^verbatim>\<open>mkpath\<close>, from the position \<open>pos\<close>. \<^verbatim>\<open>path.substr(0, pos)\<close> is
  \<open>take pos path\<close>. The condition \<^verbatim>\<open>!exists(p) && !mkdir(p)\<close> calls \<^verbatim>\<open>mkdir\<close> only when
  \<^verbatim>\<open>exists\<close> returned false; an error of \<^verbatim>\<open>exists\<close> leaves the loop, and the directories
  made so far stay. The result is the new state of the machine and what the call
  returned or threw. \<^verbatim>\<open>pos\<close> is an \<^verbatim>\<open>int\<close> in the source and a natural number here, which
  is the same as long as \<^verbatim>\<open>pos\<close> stays below \<open>2 ^ 31\<close>: for every path of fewer than
  \<open>2 ^ 31 - 1\<close> characters.
\<close>

function mkpath_loop :: "platform \<Rightarrow> string \<Rightarrow> nat \<Rightarrow> os \<Rightarrow> os \<times> (error + bool)" where
  "mkpath_loop plat path pos w =
     (if pos < length path
      then (let slash = string_find path (CHR ''/'') pos;
                pos' = (case slash of None \<Rightarrow> length path | Some i \<Rightarrow> i)
            in case exists plat w (take pos' path) of
                 Inl e \<Rightarrow> (w, Inl e)
               | Inr True \<Rightarrow> mkpath_loop plat path (pos' + 1) w
               | Inr False \<Rightarrow>
                   (case mkdir w (take pos' path) of
                      (False, w') \<Rightarrow> (w', Inr False)
                    | (True, w') \<Rightarrow> mkpath_loop plat path (pos' + 1) w'))
      else (w, Inr True))"
  by pat_completeness auto
termination
proof (relation "measure (\<lambda>(plat, path, pos, w). length path - pos)")
  show "wf (measure (\<lambda>(plat, path, pos, w). length path - pos))"
    by simp
next
  fix plat :: platform and path :: string and pos :: nat and w :: os
    and slash pos' r b
  assume "pos < length path" "slash = string_find path (CHR ''/'') pos"
    "pos' = (case slash of None \<Rightarrow> length path | Some i \<Rightarrow> i)"
  then show "((plat, path, pos' + 1, w), (plat, path, pos, w))
      \<in> measure (\<lambda>(plat, path, pos, w). length path - pos)"
    by (auto simp: string_find_def Let_def split: option.splits if_splits)
next
  fix plat :: platform and path :: string and pos :: nat and w w' :: os
    and slash pos' r b p
  assume "pos < length path" "slash = string_find path (CHR ''/'') pos"
    "pos' = (case slash of None \<Rightarrow> length path | Some i \<Rightarrow> i)"
  then show "((plat, path, pos' + 1, w'), (plat, path, pos, w))
      \<in> measure (\<lambda>(plat, path, pos, w). length path - pos)"
    by (auto simp: string_find_def Let_def split: option.splits if_splits)
qed

declare mkpath_loop.simps [simp del]

definition mkpath :: "platform \<Rightarrow> os \<Rightarrow> string \<Rightarrow> os \<times> (error + bool)" where
  "mkpath plat w path = mkpath_loop plat path 0 w"

text \<open>
  The names \<^verbatim>\<open>mkpath\<close> looks at, in the order of the walk: the part of the path before
  each of its \<^verbatim>\<open>/\<close>, then the whole path unless it is empty or ends with \<^verbatim>\<open>/\<close>.
\<close>

definition path_prefixes :: "string \<Rightarrow> string list" where
  "path_prefixes path =
     map (\<lambda>i. take i path) (filter (\<lambda>i. path ! i = CHR ''/'') [0..<length path]) @
     (if path \<noteq> [] \<and> last path \<noteq> CHR ''/'' then [path] else [])"

text \<open>The walk over a list of names: what the loop does with each name in turn.\<close>

fun mkpath_walk :: "platform \<Rightarrow> os \<Rightarrow> string list \<Rightarrow> os \<times> (error + bool)" where
  "mkpath_walk plat w [] = (w, Inr True)"
| "mkpath_walk plat w (p # ps) =
     (case exists plat w p of
        Inl e \<Rightarrow> (w, Inl e)
      | Inr True \<Rightarrow> mkpath_walk plat w ps
      | Inr False \<Rightarrow>
          (case mkdir w p of
             (False, w') \<Rightarrow> (w', Inr False)
           | (True, w') \<Rightarrow> mkpath_walk plat w' ps))"

subsection \<open>Auxiliary definitions for the proofs\<close>

text \<open>
  The digits of a number at a fixed width, and the names the loop of \<^verbatim>\<open>mkpath\<close> still has
  to look at from a position on.
\<close>

fun hex_fixed :: "nat \<Rightarrow> nat \<Rightarrow> string" where
  "hex_fixed 0 n = []"
| "hex_fixed (Suc k) n = hex_fixed k (n div 16) @ [hex_digit (n mod 16)]"

definition prefixes_from :: "string \<Rightarrow> nat \<Rightarrow> string list" where
  "prefixes_from path pos =
     map (\<lambda>i. take i path) (filter (\<lambda>i. path ! i = CHR ''/'') [pos..<length path]) @
     (if pos < length path \<and> last path \<noteq> CHR ''/'' then [path] else [])"

text \<open>
  What holds of the table and the descriptors together in every state the two calls
  reach from an empty table: \<open>can_open\<close>, the path leads to a node where the system
  can open or create a file; \<open>can_hold\<close>, and no other process holds it;
  \<open>locked_world\<close>, the machine after a lock has been granted there;
  \<open>blocks\<close>, a descriptor stands in the way of a new lock on the node; \<open>free_node\<close>,
  none does; \<open>holds\<close>, a descriptor is the one \<open>lockFile\<close> left behind for the path, and
  the only one in the way of a new lock on its file.
\<close>

definition can_open :: "os \<Rightarrow> string \<Rightarrow> node \<Rightarrow> bool" where
  "can_open w p n =
     (resolve w p = Inr n \<and> fault w n = None \<and> \<not> is_dir w n \<and>
      \<not> trailing_slash (c_str p) \<and> is_dir w (butlast n))"

definition can_hold :: "os \<Rightarrow> string \<Rightarrow> node \<Rightarrow> bool" where
  "can_hold w p n = (can_open w p n \<and> n \<notin> foreign w)"

definition locked_world :: "platform \<Rightarrow> os \<Rightarrow> node \<Rightarrow> os" where
  "locked_world plat w n =
     w\<lparr>files := insert n (files w),
       handles := (int (next_handle w),
         \<lparr>ofd_node = n, ofd_flock = (plat = POSIX),
           ofd_delete_on_close = (plat = WIN32)\<rparr>) # handles w,
       next_handle := Suc (next_handle w)\<rparr>"

definition blocks :: "platform \<Rightarrow> node \<Rightarrow> ofd \<Rightarrow> bool" where
  "blocks plat n d = (ofd_node d = n \<and> (plat = WIN32 \<or> ofd_flock d))"

definition free_node :: "platform \<Rightarrow> os \<Rightarrow> node \<Rightarrow> bool" where
  "free_node plat w n = (\<not> list_ex (\<lambda>(k, d). blocks plat n d) (handles w))"

definition holds :: "platform \<Rightarrow> os \<Rightarrow> string \<Rightarrow> int \<Rightarrow> bool" where
  "holds plat w p h =
     (case map_of (handles w) h of
        None \<Rightarrow> False
      | Some d \<Rightarrow>
          can_hold w p (ofd_node d) \<and> ofd_node d \<in> files w \<and>
          (if plat = WIN32 then ofd_delete_on_close d else ofd_flock d) \<and>
          list_all (\<lambda>(k, d'). blocks plat (ofd_node d) d' = (k = h)) (handles w))"

definition lock_inv :: "platform \<Rightarrow> state \<Rightarrow> bool" where
  "lock_inv plat s =
     (os_wf (world s) \<and> distinct (map fst (lockMap s)) \<and> distinct (map snd (lockMap s)) \<and>
      list_all (\<lambda>(p, h). holds plat (world s) p h) (lockMap s))"


section \<open>Lemmas\<close>

subsection \<open>The regular expression of \<^verbatim>\<open>hexDir\<close>\<close>

lemma first_some_None: "(\<forall>x\<in>set xs. x = None) \<Longrightarrow> first_some xs = None"
  by (induction xs rule: first_some.induct) auto

lemma regex_match_Star_last:
  "regex_match [Star c] s = (if list_all (cclass_match c) s then Some [] else None)"
proof -
  let ?n = "length (takeWhile (cclass_match c) s)"
  have le: "?n \<le> length s" by (rule length_takeWhile_le)
  have all: "list_all (cclass_match c) s \<longleftrightarrow> ?n = length s"
    by (induction s) auto
  have tail: "first_some (map (\<lambda>k. regex_match [] (drop k s)) (rev [0..<?n])) = None"
    using le by (intro first_some_None) auto
  have "regex_match [Star c] s =
      first_some (regex_match [] (drop ?n s) # map (\<lambda>k. regex_match [] (drop k s)) (rev [0..<?n]))"
    by simp
  also have "\<dots> = (if ?n = length s then Some [] else None)"
    using le tail by (cases "?n = length s") auto
  finally show ?thesis using all by simp
qed

lemma take6_split: "take 6 h = take 2 h @ take 2 (drop 2 h) @ take 2 (drop 4 h)"
  using take_add [of 2 4 h] take_add [of 2 2 "drop 2 h"] by simp

lemma regex_match_rx:
  "regex_match rx h =
     (if 6 \<le> length h \<and> list_all isxdigit (take 6 h) \<and>
         list_all (\<lambda>c. \<not> line_terminator c) (drop 6 h)
      then Some [take 2 h, take 2 (drop 2 h), take 2 (drop 4 h)] else None)"
proof -
  have star: "regex_match [Star AnyChar] s =
      (if list_all (\<lambda>c. \<not> line_terminator c) s then Some [] else None)" for s
    by (simp only: regex_match_Star_last) (simp add: list_all_iff)
  show ?thesis
    unfolding rx_def regex_match.simps(2) star take6_split
    by (auto simp: list_all_iff)
qed

lemma hexDir_eq:
  "hexDir h =
     (if 6 \<le> length h \<and> list_all isxdigit (take 6 h) \<and>
         list_all (\<lambda>c. \<not> line_terminator c) (drop 6 h)
      then Inr (take 2 h @ ''/'' @ take 2 (drop 2 h) @ ''/'' @ take 2 (drop 4 h))
      else Inl AssertFailed)"
  by (simp add: hexDir_def regex_match_rx)

subsection \<open>The digits \<^verbatim>\<open>hexStr\<close> writes\<close>

lemma length_hex_fixed: "length (hex_fixed k n) = k"
  by (induction k arbitrary: n) auto

lemma hex_fixed_zero: "hex_fixed k 0 = replicate k (CHR ''0'')"
  by (induction k) (auto simp: hex_digit_def replicate_append_same)

lemma fmt_hex_digits_fixed:
  "n < 16 ^ k \<Longrightarrow> 0 < k \<Longrightarrow>
   \<exists>j. 0 < j \<and> j \<le> k \<and> n < 16 ^ j \<and> fmt_hex_digits n acc = hex_fixed j n @ acc"
proof (induction n acc arbitrary: k rule: fmt_hex_digits.induct)
  case (1 n acc)
  show ?case
  proof (cases "n div 16 = 0")
    case True
    then have "fmt_hex_digits n acc = hex_fixed 1 n @ acc"
      by (subst fmt_hex_digits.simps) (simp add: Let_def)
    moreover from True have "n < 16" by (simp add: div_eq_0_iff)
    ultimately show ?thesis using "1.prems" by (intro exI [of _ 1]) simp
  next
    case False
    obtain k' where k: "k = Suc k'" using "1.prems" by (cases k) auto
    from False "1.prems" k have k'pos: "0 < k'" by (cases k') auto
    from "1.prems" k have lt: "n div 16 < 16 ^ k'"
      by (simp add: less_mult_imp_div_less mult.commute)
    from "1.IH" [OF refl refl False lt k'pos]
    obtain j where j: "0 < j" "j \<le> k'" "n div 16 < 16 ^ j"
      "fmt_hex_digits (n div 16) (hex_digit (n mod 16) # acc) =
         hex_fixed j (n div 16) @ hex_digit (n mod 16) # acc"
      by blast
    have "fmt_hex_digits n acc = hex_fixed (Suc j) n @ acc"
      using False j(4) by (subst fmt_hex_digits.simps) (simp add: Let_def)
    moreover from j(3) have "n < 16 ^ Suc j"
      using div_less_iff_less_mult [of 16 n "16 ^ j"] by (simp add: mult.commute)
    ultimately show ?thesis using j k by (intro exI [of _ "Suc j"]) simp
  qed
qed

lemma hex_fixed_pad:
  "n < 16 ^ j \<Longrightarrow> hex_fixed (j + d) n = replicate d (CHR ''0'') @ hex_fixed j n"
proof (induction j arbitrary: n)
  case 0
  then show ?case by (simp add: hex_fixed_zero)
next
  case (Suc j)
  then have "n div 16 < 16 ^ j"
    by (simp add: less_mult_imp_div_less mult.commute)
  with Suc.IH [of "n div 16"] show ?case by simp
qed

lemma fmt_08x_fixed: "n < 2 ^ 32 \<Longrightarrow> fmt_08x n = hex_fixed 8 n"
proof -
  assume "n < 2 ^ 32"
  then have n: "n < 16 ^ 8" by simp
  from fmt_hex_digits_fixed [OF n, of "[]"]
  obtain j where j: "0 < j" "j \<le> 8" "n < 16 ^ j" "fmt_hex_digits n [] = hex_fixed j n"
    by auto
  from j(2) have "hex_fixed (j + (8 - j)) n = hex_fixed 8 n" by simp
  with hex_fixed_pad [OF j(3), of "8 - j"] j(4)
  show ?thesis by (simp add: fmt_08x_def fmt_pad_def length_hex_fixed)
qed

lemma hexStr_fixed: "hexStr w = hex_fixed 8 (unat w)"
proof -
  have "unat w < 2 ^ 32" using unsigned_less [of w] by simp
  then show ?thesis by (simp add: hexStr_def fmt_08x_fixed)
qed

lemma hex_digit_code: "d < 16 \<Longrightarrow> (of_char (hex_digit d) :: nat) = (if d < 10 then 48 + d else 87 + d)"
proof -
  assume "d < 16"
  then have "d = 0 \<or> d = 1 \<or> d = 2 \<or> d = 3 \<or> d = 4 \<or> d = 5 \<or> d = 6 \<or> d = 7 \<or> d = 8 \<or>
      d = 9 \<or> d = 10 \<or> d = 11 \<or> d = 12 \<or> d = 13 \<or> d = 14 \<or> d = 15"
    by arith
  then show ?thesis by (elim disjE) (simp_all add: hex_digit_def)
qed

lemma hex_digit_lower: "d < 16 \<Longrightarrow> is_lower_hex (hex_digit d)"
proof -
  assume "d < 16"
  then have "d = 0 \<or> d = 1 \<or> d = 2 \<or> d = 3 \<or> d = 4 \<or> d = 5 \<or> d = 6 \<or> d = 7 \<or> d = 8 \<or>
      d = 9 \<or> d = 10 \<or> d = 11 \<or> d = 12 \<or> d = 13 \<or> d = 14 \<or> d = 15"
    by arith
  then show ?thesis by (elim disjE) (simp_all add: hex_digit_def is_lower_hex_def)
qed

lemma hex_val_digit: "d < 16 \<Longrightarrow> hex_val (hex_digit d) = Some d"
  by (simp add: hex_val_def hex_digit_code Let_def)

lemma hex_fixed_lower: "list_all is_lower_hex (hex_fixed k n)"
  by (induction k arbitrary: n) (auto simp: hex_digit_lower)

lemma hex_decode_from_append:
  "hex_decode_from acc (xs @ ys) =
     (case hex_decode_from acc xs of None \<Rightarrow> None | Some a \<Rightarrow> hex_decode_from a ys)"
  by (induction xs arbitrary: acc) (auto split: option.splits)

lemma hex_decode_from_fixed:
  "hex_decode_from acc (hex_fixed k n) = Some (acc * 16 ^ k + n mod 16 ^ k)"
proof (induction k arbitrary: n)
  case 0
  then show ?case by simp
next
  case (Suc k)
  have "n mod (16 * 16 ^ k) = 16 * (n div 16 mod 16 ^ k) + n mod 16"
    by (simp add: mod_mult2_eq)
  then show ?case
    by (simp add: hex_decode_from_append Suc.IH hex_val_digit algebra_simps)
qed

lemma hex_fixed_head:
  "hex_fixed (Suc k) n = hex_digit (n div 16 ^ k mod 16) # hex_fixed k n"
proof (induction k arbitrary: n)
  case 0
  then show ?case by simp
next
  case (Suc k)
  have "hex_fixed (Suc (Suc k)) n = hex_fixed (Suc k) (n div 16) @ [hex_digit (n mod 16)]"
    by (rule hex_fixed.simps(2))
  also have "\<dots> = (hex_digit (n div 16 div 16 ^ k mod 16) # hex_fixed k (n div 16)) @
      [hex_digit (n mod 16)]"
    by (simp only: Suc.IH)
  also have "\<dots> = hex_digit (n div 16 div 16 ^ k mod 16) # hex_fixed (Suc k) n"
    by simp
  also have "n div 16 div 16 ^ k = n div 16 ^ Suc k"
    by (simp add: div_mult2_eq)
  finally show ?case .
qed

lemma hex_digit_less:
  "x < 16 \<Longrightarrow> y < 16 \<Longrightarrow>
   ((of_char (hex_digit x) :: nat) < of_char (hex_digit y)) = (x < y)"
  by (simp add: hex_digit_code)

lemma hex_digit_eq:
  assumes "x < 16" "y < 16"
  shows "(hex_digit x = hex_digit y) = (x = y)"
proof -
  from assms have "hex_val (hex_digit x) = Some x" "hex_val (hex_digit y) = Some y"
    by (simp_all add: hex_val_digit)
  then show ?thesis by (metis option.inject)
qed

lemma digit_order:
  fixes M :: nat
  assumes "ra < M" "rb < M"
  shows "(da * M + ra < db * M + rb) = (da < db \<or> (da = db \<and> ra < rb))"
proof (cases da db rule: linorder_cases)
  case less
  then have "Suc da \<le> db" by simp
  then have "Suc da * M \<le> db * M" by (rule mult_le_mono1)
  with assms less show ?thesis by simp
next
  case equal
  then show ?thesis by simp
next
  case greater
  then have "Suc db \<le> da" by simp
  then have "Suc db * M \<le> da * M" by (rule mult_le_mono1)
  with assms greater show ?thesis by simp
qed

lemma string_less_fixed:
  "string_less (hex_fixed k a) (hex_fixed k b) = (a mod 16 ^ k < b mod 16 ^ k)"
proof (induction k)
  case 0
  then show ?case by simp
next
  case (Suc k)
  have split: "n mod 16 ^ Suc k = (n div 16 ^ k mod 16) * 16 ^ k + n mod 16 ^ k" for n :: nat
    using mod_mult2_eq [of n "16 ^ k" 16] by (simp add: mult.commute)
  have "string_less (hex_fixed (Suc k) a) (hex_fixed (Suc k) b) =
      (a div 16 ^ k mod 16 < b div 16 ^ k mod 16 \<or>
       (a div 16 ^ k mod 16 = b div 16 ^ k mod 16 \<and> a mod 16 ^ k < b mod 16 ^ k))"
    by (simp only: hex_fixed_head string_less.simps Suc.IH) (simp add: hex_digit_less hex_digit_eq)
  also have "\<dots> = (a mod 16 ^ Suc k < b mod 16 ^ Suc k)"
    by (simp only: split [of a] split [of b]) (simp add: digit_order)
  finally show ?case .
qed

lemma hexStr_length: "length (hexStr w) = 8"
  by (simp add: hexStr_fixed length_hex_fixed)

lemma hexStr_decode: "hex_decode (hexStr w) = Some (unat w)"
proof -
  have lt: "unat w < 16 ^ 8" using unsigned_less [of w] by simp
  have "hexStr w \<noteq> []" using hexStr_length [of w] by auto
  then show ?thesis using lt
    by (simp add: hex_decode_def hexStr_fixed hex_decode_from_fixed)
qed

lemma hexStr_less: "string_less (hexStr a) (hexStr b) = (a < b)"
proof -
  have "unat a < 16 ^ 8" "unat b < 16 ^ 8"
    using unsigned_less [of a] unsigned_less [of b] by simp_all
  then show ?thesis
    by (simp add: hexStr_fixed string_less_fixed word_less_nat_alt)
qed

lemma hexStr_inj: "(hexStr a = hexStr b) = (a = b)"
proof
  assume "hexStr a = hexStr b"
  then have "hex_decode (hexStr a) = hex_decode (hexStr b)" by simp
  then show "a = b" by (simp add: hexStr_decode word_unat_eq_iff)
qed simp

lemma xdigit_not_terminator: "isxdigit c \<Longrightarrow> \<not> line_terminator c"
  by (auto simp: isxdigit_def line_terminator_def)

lemma hexDir_valid:
  assumes "length h = 8" "list_all isxdigit h"
  shows "hexDir h = Inr (take 2 h @ ''/'' @ take 2 (drop 2 h) @ ''/'' @ take 2 (drop 4 h))"
proof -
  from assms(2) have "list_all isxdigit (take 6 h)"
    by (auto simp: list_all_iff dest: in_set_takeD)
  moreover from assms(2) have "list_all (\<lambda>c. \<not> line_terminator c) (drop 6 h)"
    by (auto simp: list_all_iff dest: in_set_dropD xdigit_not_terminator)
  ultimately show ?thesis using assms(1) by (simp add: hexDir_eq)
qed

subsection \<open>The lock table and the two calls\<close>

lemma map_of_None_keys: "(map_of m k = None) = (k \<notin> keys m)"
  by (simp add: keys_def map_of_eq_None_iff)

lemma smap_find_append: "k \<notin> keys m \<Longrightarrow> smap_find (m @ [(k, v)]) k = Some v"
  by (simp add: smap_find_def map_of_None_keys [symmetric] map_add_def)

lemma smap_erase_append: "k \<notin> keys m \<Longrightarrow> smap_erase (m @ [(k, v)]) k = m"
  by (induction m) (auto simp: keys_def)

lemma keys_Cons: "keys ((k, v) # m) = insert k (keys m)"
  by (simp add: keys_def)

lemma keys_Nil: "keys [] = {}"
  by (simp add: keys_def)

lemma keys_smap_erase_subset: "keys (smap_erase m k) \<subseteq> keys m"
  by (induction m) (auto simp: keys_Cons keys_Nil split: if_splits)

lemma keys_smap_erase_others: "q \<noteq> k \<Longrightarrow> q \<in> keys m \<Longrightarrow> q \<in> keys (smap_erase m k)"
  by (induction m) (auto simp: keys_Cons keys_Nil)

lemma distinct_keys_Cons: "distinct (map fst ((k, v) # m)) = (k \<notin> keys m \<and> distinct (map fst m))"
  by (simp add: keys_def)

lemma keys_smap_erase: "distinct (map fst m) \<Longrightarrow> keys (smap_erase m k) = keys m - {k}"
  by (induction m) (auto simp: keys_Cons keys_Nil distinct_keys_Cons simp del: distinct.simps list.map
      split: if_splits)

lemma distinct_smap_erase: "distinct (map fst m) \<Longrightarrow> distinct (map fst (smap_erase m k))"
proof (induction m)
  case Nil
  then show ?case by simp
next
  case (Cons a m)
  obtain k' v where a: "a = (k', v)" by (cases a)
  have "k' \<notin> keys (smap_erase m k)"
    using Cons.prems keys_smap_erase_subset [of m k] by (auto simp: a keys_def)
  then show ?case using Cons by (auto simp: a keys_def)
qed

lemma keys_append1: "keys (m @ [(k, v)]) = insert k (keys m)"
  by (simp add: keys_def)

lemma run_Nil: "run plat s [] = s"
  by (simp add: run_def)

lemma run_Cons: "run plat s (op # ops) = run plat (apply_op plat s op) ops"
  by (simp add: run_def)

lemma lockFile_locked:
  "p \<in> keys (lockMap s) \<Longrightarrow> lockFile plat s p = Inl AlreadyLocked"
  using map_of_None_keys [of "lockMap s" p]
  by (cases plat) (auto simp: lockFile_posix_def lockFile_win32_def smap_find_def)

lemma unlockFile_not_locked:
  "p \<notin> keys (lockMap s) \<Longrightarrow> unlockFile plat s p = Inl NotLocked"
  using map_of_None_keys [of "lockMap s" p]
  by (cases plat) (simp_all add: unlockFile_posix_def unlockFile_win32_def smap_find_def)

lemma sys_open_fd: "sys_open w p = (fd, w1) \<Longrightarrow> fd = - 1 \<or> fd = int (next_handle w)"
  by (auto simp: sys_open_def Let_def split: sum.splits if_splits)

lemma win_CreateFile_h:
  "win_CreateFile w p = (h, w1) \<Longrightarrow> h = INVALID_HANDLE_VALUE \<or> h = int (next_handle w)"
  by (auto simp: win_CreateFile_def Let_def split: sum.splits if_splits)

lemma lockFile_posix_grants:
  assumes "p \<notin> keys (lockMap s)"
  shows "\<exists>s1. lockFile_posix s p = Inr (os_grants_posix (world s) p, s1) \<and>
           lockMap s1 = (if os_grants_posix (world s) p
                         then lockMap s @ [(p, int (next_handle (world s)))] else lockMap s)"
proof -
  obtain fd w1 where op: "sys_open (world s) p = (fd, w1)" by (cases "sys_open (world s) p")
  obtain r w2 where fl: "sys_flock w1 fd = (r, w2)" by (cases "sys_flock w1 fd")
  from assms have free: "map_of (lockMap s) p = None" by (simp add: map_of_None_keys)
  from sys_open_fd [OF op] show ?thesis
    using op fl free
    by (auto simp: lockFile_posix_def os_grants_posix_def smap_find_def smap_insert_def)
qed

lemma lockFile_win32_grants:
  assumes "p \<notin> keys (lockMap s)"
  shows "\<exists>s1. lockFile_win32 s p = Inr (os_grants_win32 (world s) p, s1) \<and>
           lockMap s1 = (if os_grants_win32 (world s) p
                         then lockMap s @ [(p, int (next_handle (world s)))] else lockMap s)"
proof -
  obtain h w1 where cf: "win_CreateFile (world s) p = (h, w1)"
    by (cases "win_CreateFile (world s) p")
  from assms have free: "map_of (lockMap s) p = None" by (simp add: map_of_None_keys)
  from win_CreateFile_h [OF cf] show ?thesis
    using cf free
    by (auto simp: lockFile_win32_def os_grants_win32_def smap_find_def smap_insert_def
        INVALID_HANDLE_VALUE_def)
qed

lemma lockFile_grants:
  "p \<notin> keys (lockMap s) \<Longrightarrow>
   \<exists>s1. lockFile plat s p = Inr (os_grants plat (world s) p, s1) \<and>
        lockMap s1 = (if os_grants plat (world s) p
                      then lockMap s @ [(p, int (next_handle (world s)))] else lockMap s)"
  using lockFile_posix_grants [of p s] lockFile_win32_grants [of p s]
  by (cases plat) auto

lemma lockFile_table:
  "lockFile plat s p = Inr (b, s') \<Longrightarrow>
   p \<notin> keys (lockMap s) \<and> b = os_grants plat (world s) p \<and>
   lockMap s' = (if b then lockMap s @ [(p, int (next_handle (world s)))] else lockMap s)"
  using lockFile_grants [of p s plat] lockFile_locked [of p s plat]
  by (cases "p \<in> keys (lockMap s)") auto

lemma unlockFile_locked:
  "p \<in> keys (lockMap s) \<Longrightarrow>
   \<exists>s'. unlockFile plat s p = Inr s' \<and> lockMap s' = smap_erase (lockMap s) p"
proof -
  assume "p \<in> keys (lockMap s)"
  then obtain fd where "map_of (lockMap s) p = Some fd"
    using map_of_None_keys [of "lockMap s" p] by auto
  then show ?thesis
    by (cases plat) (simp_all add: unlockFile_posix_def unlockFile_win32_def smap_find_def)
qed

lemma unlockFile_table:
  "unlockFile plat s p = Inr s' \<Longrightarrow> p \<in> keys (lockMap s) \<and> lockMap s' = smap_erase (lockMap s) p"
  using unlockFile_locked [of p s plat] unlockFile_not_locked [of p s plat]
  by (cases "p \<in> keys (lockMap s)") auto

lemma apply_op_Acquire_keys:
  "keys (lockMap (apply_op plat s (Acquire p))) =
     (if \<exists>t. lockFile plat s p = Inr (True, t) then insert p (keys (lockMap s))
      else keys (lockMap s))"
proof (cases "lockFile plat s p")
  case (Inl e)
  then show ?thesis by simp
next
  case (Inr r)
  obtain b t where r: "r = (b, t)" by (cases r)
  from lockFile_table [of plat s p b t] Inr r show ?thesis
    by (cases b) (auto simp: keys_append1)
qed

lemma apply_op_Release_keys:
  "keys (lockMap (apply_op plat s (Release p))) \<subseteq> keys (lockMap s) \<and>
   keys (lockMap s) - {p} \<subseteq> keys (lockMap (apply_op plat s (Release p)))"
proof (cases "unlockFile plat s p")
  case (Inl e)
  then show ?thesis by auto
next
  case (Inr t)
  from unlockFile_table [OF Inr] Inr show ?thesis
    using keys_smap_erase_subset [of "lockMap s" p] keys_smap_erase_others [of _ p "lockMap s"]
    by auto
qed

lemma apply_op_distinct:
  "distinct (map fst (lockMap s)) \<Longrightarrow> distinct (map fst (lockMap (apply_op plat s op)))"
proof (cases op)
  case (Acquire p)
  assume d: "distinct (map fst (lockMap s))"
  show ?thesis
  proof (cases "lockFile plat s p")
    case (Inl e)
    with d Acquire show ?thesis by simp
  next
    case (Inr r)
    obtain b t where r: "r = (b, t)" by (cases r)
    from lockFile_table [of plat s p b t] Inr r d Acquire show ?thesis
      by (cases b) (auto simp: keys_def)
  qed
next
  case (Release p)
  assume d: "distinct (map fst (lockMap s))"
  show ?thesis
  proof (cases "unlockFile plat s p")
    case (Inl e)
    with d Release show ?thesis by simp
  next
    case (Inr t)
    from unlockFile_table [OF Inr] Inr d Release show ?thesis
      by (simp add: distinct_smap_erase)
  qed
qed

lemma run_distinct:
  "distinct (map fst (lockMap s)) \<Longrightarrow> distinct (map fst (lockMap (run plat s ops)))"
  by (induction ops arbitrary: s) (simp_all add: run_Nil run_Cons apply_op_distinct)

lemma apply_op_keeps:
  "p \<in> keys (lockMap s) \<Longrightarrow> op \<noteq> Release p \<Longrightarrow> p \<in> keys (lockMap (apply_op plat s op))"
proof (cases op)
  case (Acquire q)
  assume "p \<in> keys (lockMap s)"
  then show ?thesis unfolding Acquire apply_op_Acquire_keys by simp
next
  case (Release q)
  assume "p \<in> keys (lockMap s)" "op \<noteq> Release p"
  with Release apply_op_Release_keys [of plat s q] show ?thesis by auto
qed

lemma run_keeps:
  "p \<in> keys (lockMap s) \<Longrightarrow> Release p \<notin> set ops \<Longrightarrow> p \<in> keys (lockMap (run plat s ops))"
  by (induction ops arbitrary: s) (auto simp: run_Nil run_Cons apply_op_keeps)

lemma lockFile_run:
  "p \<notin> keys (lockMap s) \<Longrightarrow> os_grants plat (world s) p \<Longrightarrow>
   lockFile plat s p = Inr (True, run plat s [Acquire p])"
  using lockFile_grants [of p s plat] by (auto simp: run_def)

lemma lockFile_run_denied:
  "p \<notin> keys (lockMap s) \<Longrightarrow> \<not> os_grants plat (world s) p \<Longrightarrow>
   lockFile plat s p = Inr (False, run plat s [Acquire p])"
  using lockFile_grants [of p s plat] by (auto simp: run_def)

lemma unlockFile_run:
  "p \<in> keys (lockMap s) \<Longrightarrow> unlockFile plat s p = Inr (run plat s [Release p])"
  using unlockFile_locked [of p s plat] by (auto simp: run_def)

lemma run_append: "run plat s (xs @ ys) = run plat (run plat s xs) ys"
  by (simp add: run_def)

subsection \<open>The system calls of \<^verbatim>\<open>lockFile\<close>\<close>

lemma resolve_from_dirs:
  assumes "dirs w' = dirs w"
  shows "(resolve_from w' cur cs = Inr n) = (resolve_from w cur cs = Inr n)"
proof (induction cs arbitrary: cur)
  case Nil
  show ?case by simp
next
  case (Cons c cs)
  have d: "is_dir w' cur = is_dir w cur" using assms by (simp add: is_dir_def)
  show ?case
  proof (cases "is_dir w cur")
    case True
    with d Cons [of "step cur c"] show ?thesis by simp
  next
    case False
    with d show ?thesis by simp
  qed
qed

lemma resolve_dirs:
  assumes "dirs w' = dirs w" "cwd w' = cwd w"
  shows "(resolve w' p = Inr n) = (resolve w p = Inr n)"
  using resolve_from_dirs [OF assms(1)] assms(2) by (simp add: resolve_def Let_def)

lemma can_hold_cong:
  assumes "dirs w' = dirs w" "cwd w' = cwd w" "fault w' = fault w" "foreign w' = foreign w"
  shows "can_hold w' p n = can_hold w p n"
  using resolve_dirs [OF assms(1,2)] assms by (simp add: can_hold_def can_open_def is_dir_def)

lemma os_wf_fresh: "os_wf w \<Longrightarrow> (k, d) \<in> set (handles w) \<Longrightarrow> k < int (next_handle w)"
  by (auto simp: os_wf_def list_all_iff)

lemma map_flag_fresh:
  "\<forall>(k, d)\<in>set hs. k \<noteq> fd \<Longrightarrow>
   map (\<lambda>(fd', d'). if fd' = fd then (fd', d'\<lparr>ofd_flock := True\<rparr>) else (fd', d')) hs = hs"
  by (induction hs) auto

lemma filter_fresh: "\<forall>(k, d)\<in>set hs. k \<noteq> fd \<Longrightarrow> filter (\<lambda>(fd', d'). fd' \<noteq> fd) hs = hs"
  by (induction hs) auto

lemma os_wf_keys_fresh: "os_wf w \<Longrightarrow> \<forall>(k, d)\<in>set (handles w). k \<noteq> int (next_handle w)"
  by (auto dest: os_wf_fresh)

lemma can_open_unique: "can_open w p n \<Longrightarrow> can_open w p m \<Longrightarrow> m = n"
  by (simp add: can_open_def)

lemma sys_open_ok:
  assumes "can_open w p n"
  shows "sys_open w p =
     (int (next_handle w),
      w\<lparr>files := insert n (files w),
        handles := (int (next_handle w),
          \<lparr>ofd_node = n, ofd_flock = False, ofd_delete_on_close = False\<rparr>) # handles w,
        next_handle := Suc (next_handle w)\<rparr>)"
  using assms by (simp add: sys_open_def can_open_def Let_def)

lemma sys_open_fail: "\<not> (\<exists>n. can_open w p n) \<Longrightarrow> sys_open w p = (- 1, w)"
  by (auto simp: sys_open_def can_open_def Let_def split: sum.splits)

lemma free_node_iff:
  "free_node plat w n = (\<forall>(k, d)\<in>set (handles w). \<not> blocks plat n d)"
  by (auto simp: free_node_def list_ex_iff)

lemma win_CreateFile_ok:
  assumes "can_hold w p n" "free_node WIN32 w n"
  shows "win_CreateFile w p = (int (next_handle w), locked_world WIN32 w n)"
  using assms
  by (simp add: win_CreateFile_def can_hold_def can_open_def free_node_def blocks_def Let_def
      locked_world_def)

lemma win_CreateFile_fail:
  assumes "\<not> (\<exists>n. can_hold w p n \<and> free_node WIN32 w n)"
  shows "win_CreateFile w p = (INVALID_HANDLE_VALUE, w)"
proof (cases "resolve w p")
  case (Inl e)
  then show ?thesis by (simp add: win_CreateFile_def)
next
  case (Inr n)
  with assms have "\<not> (fault w n = None \<and> \<not> is_dir w n \<and> \<not> trailing_slash (c_str p) \<and>
      is_dir w (butlast n) \<and> n \<notin> foreign w \<and>
      \<not> list_ex (\<lambda>(h', d'). ofd_node d' = n) (handles w))"
    by (auto simp: can_hold_def can_open_def free_node_def blocks_def)
  with Inr show ?thesis by (auto simp: win_CreateFile_def)
qed

lemma posix_flock_after_open:
  assumes wf: "os_wf w" and op: "can_open w p n"
  shows "sys_flock (snd (sys_open w p)) (int (next_handle w)) =
     (if n \<notin> foreign w \<and> free_node POSIX w n
      then (0, locked_world POSIX w n)
      else (- 1, snd (sys_open w p)))"
proof -
  let ?fd = "int (next_handle w)"
  note fresh = os_wf_keys_fresh [OF wf]
  have ex: "list_ex (\<lambda>(fd', d'). fd' \<noteq> ?fd \<and> ofd_node d' = n \<and> ofd_flock d') (handles w) =
      (\<not> free_node POSIX w n)"
    using fresh by (fastforce simp: free_node_iff blocks_def list_ex_iff)
  show ?thesis
    by (simp add: sys_open_ok [OF op] sys_flock_def ex map_flag_fresh [OF fresh]
        locked_world_def)
qed

lemma lockFile_posix_wf:
  assumes wf: "os_wf (world s)" and free: "p \<notin> keys (lockMap s)"
  shows "lockFile_posix s p =
     (case resolve (world s) p of
        Inl e \<Rightarrow> Inr (False, s)
      | Inr n \<Rightarrow>
          if can_open (world s) p n
          then (if n \<notin> foreign (world s) \<and> free_node POSIX (world s) n
                then Inr (True, \<lparr>world = locked_world POSIX (world s) n,
                                 lockMap = lockMap s @ [(p, int (next_handle (world s)))]\<rparr>)
                else Inr (False, \<lparr>world = (world s)\<lparr>files := insert n (files (world s)),
                                     next_handle := Suc (next_handle (world s))\<rparr>,
                                  lockMap = lockMap s\<rparr>))
          else Inr (False, s))"
proof -
  let ?w = "world s"
  from free have notin: "map_of (lockMap s) p = None" by (simp add: map_of_None_keys)
  show ?thesis
  proof (cases "\<exists>n. can_open ?w p n")
    case False
    then have "lockFile_posix s p = Inr (False, s)"
      by (simp add: lockFile_posix_def smap_find_def notin sys_open_fail)
    with False show ?thesis by (auto split: sum.splits)
  next
    case True
    then obtain n where n: "can_open ?w p n" by blast
    then have r: "resolve ?w p = Inr n" by (simp add: can_open_def)
    note fresh = os_wf_keys_fresh [OF wf]
    from posix_flock_after_open [OF wf n] sys_open_ok [OF n]
    show ?thesis
      by (simp add: lockFile_posix_def smap_find_def notin r n smap_insert_def sys_close_def
          filter_fresh [OF fresh])
  qed
qed

lemma lockFile_win32_eq:
  assumes free: "p \<notin> keys (lockMap s)"
  shows "lockFile_win32 s p =
     (case resolve (world s) p of
        Inl e \<Rightarrow> Inr (False, s)
      | Inr n \<Rightarrow>
          if can_hold (world s) p n \<and> free_node WIN32 (world s) n
          then Inr (True, \<lparr>world = locked_world WIN32 (world s) n,
                           lockMap = lockMap s @ [(p, int (next_handle (world s)))]\<rparr>)
          else Inr (False, s))"
proof -
  let ?w = "world s"
  from free have notin: "map_of (lockMap s) p = None" by (simp add: map_of_None_keys)
  show ?thesis
  proof (cases "\<exists>n. can_hold ?w p n \<and> free_node WIN32 ?w n")
    case False
    then have "lockFile_win32 s p = Inr (False, s)"
      by (simp add: lockFile_win32_def smap_find_def notin win_CreateFile_fail)
    with False show ?thesis by (auto split: sum.splits)
  next
    case True
    then obtain n where n: "can_hold ?w p n" "free_node WIN32 ?w n" by blast
    then have r: "resolve ?w p = Inr n" by (simp add: can_hold_def can_open_def)
    from win_CreateFile_ok [OF n] n
    show ?thesis
      by (simp add: lockFile_win32_def smap_find_def notin r smap_insert_def
          INVALID_HANDLE_VALUE_def)
  qed
qed

subsection \<open>The table and the descriptors in reachable states\<close>

lemma holds_iff:
  "holds plat w p h =
     (\<exists>d. map_of (handles w) h = Some d \<and> can_hold w p (ofd_node d) \<and> ofd_node d \<in> files w \<and>
          (if plat = WIN32 then ofd_delete_on_close d else ofd_flock d) \<and>
          (\<forall>(k, d')\<in>set (handles w). blocks plat (ofd_node d) d' = (k = h)))"
  by (auto simp: holds_def list_all_iff split: option.splits)

lemma lock_inv_iff:
  "lock_inv plat s =
     (os_wf (world s) \<and> distinct (map fst (lockMap s)) \<and> distinct (map snd (lockMap s)) \<and>
      (\<forall>(p, h)\<in>set (lockMap s). holds plat (world s) p h))"
  by (auto simp: lock_inv_def list_all_iff)

lemma lock_inv_init: "lockMap s = [] \<Longrightarrow> os_wf (world s) \<Longrightarrow> lock_inv plat s"
  by (simp add: lock_inv_iff)

lemma holds_key: "holds plat w p h \<Longrightarrow> h \<in> fst ` set (handles w)"
  by (auto simp: holds_iff dest!: map_of_SomeD intro: rev_image_eqI)

lemma holds_frame:
  assumes "holds plat w p h" "handles w' = handles w" "dirs w' = dirs w" "cwd w' = cwd w"
    "fault w' = fault w" "foreign w' = foreign w" "files w \<subseteq> files w'"
  shows "holds plat w' p h"
proof -
  from assms(1) obtain d where d: "map_of (handles w) h = Some d" "can_hold w p (ofd_node d)"
    "ofd_node d \<in> files w" "if plat = WIN32 then ofd_delete_on_close d else ofd_flock d"
    "\<forall>(k, d')\<in>set (handles w). blocks plat (ofd_node d) d' = (k = h)"
    unfolding holds_iff by blast
  from d(2) have "can_hold w' p (ofd_node d)"
    by (simp add: can_hold_cong [OF assms(3,4,5,6)])
  with d assms(2,7) show ?thesis unfolding holds_iff by auto
qed

lemma locked_world_frame:
  "dirs (locked_world plat w n) = dirs w" "cwd (locked_world plat w n) = cwd w"
  "fault (locked_world plat w n) = fault w" "foreign (locked_world plat w n) = foreign w"
  "files (locked_world plat w n) = insert n (files w)"
  "handles (locked_world plat w n) =
     (int (next_handle w), \<lparr>ofd_node = n, ofd_flock = (plat = POSIX),
        ofd_delete_on_close = (plat = WIN32)\<rparr>) # handles w"
  "next_handle (locked_world plat w n) = Suc (next_handle w)"
  by (simp_all add: locked_world_def)

lemma os_wf_locked_world: "os_wf w \<Longrightarrow> os_wf (locked_world plat w n)"
  by (fastforce simp: os_wf_def locked_world_frame list_all_iff)

lemma holds_locked_old:
  assumes wf: "os_wf w" and h: "holds plat w q h" and free: "free_node plat w n"
  shows "holds plat (locked_world plat w n) q h"
proof -
  let ?w' = "locked_world plat w n"
  let ?fd = "int (next_handle w)"
  from h obtain d where d: "map_of (handles w) h = Some d" "can_hold w q (ofd_node d)"
    "ofd_node d \<in> files w" "if plat = WIN32 then ofd_delete_on_close d else ofd_flock d"
    "\<forall>(k, d')\<in>set (handles w). blocks plat (ofd_node d) d' = (k = h)"
    unfolding holds_iff by blast
  from d(1) have mem: "(h, d) \<in> set (handles w)" by (rule map_of_SomeD)
  with wf have ne: "h \<noteq> ?fd" by (auto dest: os_wf_fresh)
  from mem d(5) have "blocks plat (ofd_node d) d" by auto
  with free mem have nn: "ofd_node d \<noteq> n" by (auto simp: free_node_iff)
  from d(2) have ch: "can_hold ?w' q (ofd_node d)"
    by (simp add: can_hold_cong [OF locked_world_frame(1,2,3,4)])
  from ne d(1) have m: "map_of (handles ?w') h = Some d" by (simp add: locked_world_frame)
  from nn ne d(5) have bl: "\<forall>(k, d')\<in>set (handles ?w'). blocks plat (ofd_node d) d' = (k = h)"
    by (auto simp: locked_world_frame blocks_def)
  from m ch d(3,4) bl show ?thesis unfolding holds_iff by (auto simp: locked_world_frame)
qed

lemma holds_locked_new:
  assumes wf: "os_wf w" and ch: "can_hold w p n" and free: "free_node plat w n"
  shows "holds plat (locked_world plat w n) p (int (next_handle w))"
proof -
  let ?w' = "locked_world plat w n"
  let ?fd = "int (next_handle w)"
  from ch have ch': "can_hold ?w' p n"
    by (simp add: can_hold_cong [OF locked_world_frame(1,2,3,4)])
  have bl: "\<forall>(k, d')\<in>set (handles ?w'). blocks plat n d' = (k = ?fd)"
    using free os_wf_keys_fresh [OF wf]
    by (cases plat) (auto simp: locked_world_frame blocks_def free_node_iff)
  from ch' bl show ?thesis
    unfolding holds_iff by (cases plat) (auto simp: locked_world_frame)
qed

lemma lock_inv_granted:
  assumes inv: "lock_inv plat s" and free: "p \<notin> keys (lockMap s)"
    and ch: "can_hold (world s) p n" and fr: "free_node plat (world s) n"
  shows "lock_inv plat \<lparr>world = locked_world plat (world s) n,
                         lockMap = lockMap s @ [(p, int (next_handle (world s)))]\<rparr>"
proof -
  let ?w = "world s"
  let ?fd = "int (next_handle ?w)"
  from inv have wf: "os_wf ?w" and df: "distinct (map fst (lockMap s))"
    and ds: "distinct (map snd (lockMap s))"
    and hs: "\<forall>(q, h)\<in>set (lockMap s). holds plat ?w q h"
    by (simp_all add: lock_inv_iff)
  have fresh: "?fd \<notin> snd ` set (lockMap s)"
  proof
    assume "?fd \<in> snd ` set (lockMap s)"
    then obtain q where "(q, ?fd) \<in> set (lockMap s)" by auto
    with hs have "holds plat ?w q ?fd" by auto
    then have "?fd \<in> fst ` set (handles ?w)" by (rule holds_key)
    with wf show False by (auto dest: os_wf_fresh)
  qed
  from free have "p \<notin> fst ` set (lockMap s)" by (simp add: keys_def)
  with df ds fresh hs wf ch fr show ?thesis
    by (auto simp: lock_inv_iff os_wf_locked_world holds_locked_old holds_locked_new)
qed

lemma lock_inv_frame:
  assumes inv: "lock_inv plat s" and "lockMap s' = lockMap s" "handles (world s') = handles (world s)"
    "dirs (world s') = dirs (world s)" "cwd (world s') = cwd (world s)"
    "fault (world s') = fault (world s)" "foreign (world s') = foreign (world s)"
    "files (world s) \<subseteq> files (world s')" "next_handle (world s) \<le> next_handle (world s')"
  shows "lock_inv plat s'"
proof -
  from inv have wf: "os_wf (world s)" and df: "distinct (map fst (lockMap s))"
    and ds: "distinct (map snd (lockMap s))"
    and hs: "\<forall>(q, h)\<in>set (lockMap s). holds plat (world s) q h"
    by (simp_all add: lock_inv_iff)
  from wf assms(3,9) have "os_wf (world s')"
    by (fastforce simp: os_wf_def list_all_iff)
  moreover have "\<forall>(q, h)\<in>set (lockMap s'). holds plat (world s') q h"
    using hs assms(2) holds_frame [OF _ assms(3,4,5,6,7,8)] by auto
  ultimately show ?thesis using df ds assms(2) by (simp add: lock_inv_iff)
qed

lemma smap_find_mem: "smap_find m p = Some h \<Longrightarrow> (p, h) \<in> set m"
  by (simp add: smap_find_def map_of_SomeD)

lemma smap_find_keys: "smap_find m p = Some h \<Longrightarrow> p \<in> keys m"
  by (auto simp: keys_def dest!: smap_find_mem intro: rev_image_eqI)

lemma keys_smap_find: "p \<in> keys m \<Longrightarrow> \<exists>h. smap_find m p = Some h"
  using map_of_None_keys [of m p] by (cases "map_of m p") (auto simp: smap_find_def)

lemma set_smap_erase: "set (smap_erase m k) \<subseteq> set m"
  by (induction m) (auto split: if_splits)

lemma distinct_snd_smap_erase: "distinct (map snd m) \<Longrightarrow> distinct (map snd (smap_erase m k))"
proof (induction m)
  case Nil
  then show ?case by simp
next
  case (Cons a m)
  obtain k' v where a: "a = (k', v)" by (cases a)
  from Cons.prems have "v \<notin> snd ` set m" "distinct (map snd m)" by (simp_all add: a)
  moreover have "snd ` set (smap_erase m k) \<subseteq> snd ` set m"
    using set_smap_erase [of m k] by blast
  ultimately show ?case using Cons.IH by (auto simp: a)
qed

lemma smap_erase_other_value:
  assumes "distinct (map fst m)" "distinct (map snd m)" "smap_find m p = Some h"
    "(q, k) \<in> set (smap_erase m p)"
  shows "k \<noteq> h \<and> q \<noteq> p \<and> (q, k) \<in> set m"
proof -
  from assms(4) have mem: "(q, k) \<in> set m" using set_smap_erase [of m p] by blast
  from assms(4) have "q \<in> keys (smap_erase m p)" by (auto simp: keys_def intro: rev_image_eqI)
  with assms(1) have qp: "q \<noteq> p" by (simp add: keys_smap_erase)
  from assms(3) have memp: "(p, h) \<in> set m" by (rule smap_find_mem)
  have "k \<noteq> h"
  proof
    assume "k = h"
    with mem memp assms(2) have "(q, k) = (p, h)"
      by (metis distinct_map inj_onD snd_conv)
    with qp show False by simp
  qed
  with qp mem show ?thesis by simp
qed

lemma map_of_filter_other:
  "k \<noteq> h \<Longrightarrow> map_of (filter (\<lambda>(k', d'). k' \<noteq> h) hs) k = map_of hs k"
  by (induction hs) auto

lemma map_of_filter_same: "map_of (filter (\<lambda>(k', d'). k' \<noteq> h) hs) h = None"
  by (induction hs) auto

lemma unlockFile_world:
  assumes "smap_find (lockMap s) p = Some h" "map_of (handles (world s)) h = Some d"
  shows "\<exists>s'. unlockFile plat s p = Inr s' \<and> lockMap s' = smap_erase (lockMap s) p \<and>
     handles (world s') = filter (\<lambda>(k, d'). k \<noteq> h) (handles (world s)) \<and>
     dirs (world s') = dirs (world s) \<and> cwd (world s') = cwd (world s) \<and>
     fault (world s') = fault (world s) \<and> foreign (world s') = foreign (world s) \<and>
     next_handle (world s') = next_handle (world s) \<and>
     files (world s') = (if plat = WIN32 \<and> ofd_delete_on_close d
                         then files (world s) - {ofd_node d} else files (world s))"
  using assms
  by (cases plat)
     (simp_all add: unlockFile_posix_def unlockFile_win32_def sys_close_def win_CloseHandle_def)

lemma os_wf_filter:
  assumes "os_wf w" "handles w' = filter P (handles w)" "next_handle w' = next_handle w"
  shows "os_wf w'"
  using assms by (auto simp: os_wf_def list_all_iff distinct_map_filter)

lemma holds_after_close:
  assumes hp: "holds plat w p h" and hq: "holds plat w q k" and ne: "k \<noteq> h"
    and hs: "handles w' = filter (\<lambda>(k', d'). k' \<noteq> h) (handles w)"
    and fr: "dirs w' = dirs w" "cwd w' = cwd w" "fault w' = fault w" "foreign w' = foreign w"
    and fl: "\<And>d. map_of (handles w) h = Some d \<Longrightarrow> files w - {ofd_node d} \<subseteq> files w'"
  shows "holds plat w' q k"
proof -
  from hp obtain d where d: "map_of (handles w) h = Some d"
    "\<forall>(k', d')\<in>set (handles w). blocks plat (ofd_node d) d' = (k' = h)"
    unfolding holds_iff by blast
  from hq obtain e where e: "map_of (handles w) k = Some e" "can_hold w q (ofd_node e)"
    "ofd_node e \<in> files w" "if plat = WIN32 then ofd_delete_on_close e else ofd_flock e"
    "\<forall>(k', d')\<in>set (handles w). blocks plat (ofd_node e) d' = (k' = k)"
    unfolding holds_iff by blast
  from e(1) have mem: "(k, e) \<in> set (handles w)" by (rule map_of_SomeD)
  with e(5) have be: "blocks plat (ofd_node e) e" by auto
  from mem d(2) ne have "\<not> blocks plat (ofd_node d) e" by auto
  with be have nn: "ofd_node e \<noteq> ofd_node d" by (auto simp: blocks_def)
  from e(2) have ch: "can_hold w' q (ofd_node e)" by (simp add: can_hold_cong [OF fr])
  from ne e(1) have m: "map_of (handles w') k = Some e" by (simp add: hs map_of_filter_other)
  from e(3) nn fl [OF d(1)] have f: "ofd_node e \<in> files w'" by auto
  from e(5) have bl: "\<forall>(k', d')\<in>set (handles w'). blocks plat (ofd_node e) d' = (k' = k)"
    by (auto simp: hs)
  from m ch f e(4) bl show ?thesis unfolding holds_iff by auto
qed

lemma free_after_close:
  assumes hp: "holds plat w p h"
    and hs: "handles w' = filter (\<lambda>(k', d'). k' \<noteq> h) (handles w)"
    and d: "map_of (handles w) h = Some d"
  shows "free_node plat w' (ofd_node d)"
  using hp d by (fastforce simp: holds_iff free_node_iff hs)

lemma lock_inv_unlock:
  assumes inv: "lock_inv plat s" and f: "smap_find (lockMap s) p = Some h"
  shows "\<exists>s' d. unlockFile plat s p = Inr s' \<and> lock_inv plat s' \<and>
     map_of (handles (world s)) h = Some d \<and> can_hold (world s) p (ofd_node d) \<and>
     ofd_node d \<in> files (world s) \<and>
     lockMap s' = smap_erase (lockMap s) p \<and> p \<notin> keys (lockMap s') \<and>
     handles (world s') = filter (\<lambda>(k, d'). k \<noteq> h) (handles (world s)) \<and>
     dirs (world s') = dirs (world s) \<and> cwd (world s') = cwd (world s) \<and>
     fault (world s') = fault (world s) \<and> foreign (world s') = foreign (world s) \<and>
     next_handle (world s') = next_handle (world s) \<and>
     files (world s') = (if plat = WIN32 then files (world s) - {ofd_node d} else files (world s)) \<and>
     can_hold (world s') p (ofd_node d) \<and> free_node plat (world s') (ofd_node d)"
proof -
  let ?w = "world s"
  from inv have wf: "os_wf ?w" and df: "distinct (map fst (lockMap s))"
    and ds: "distinct (map snd (lockMap s))"
    and hs: "\<forall>(q, k)\<in>set (lockMap s). holds plat ?w q k"
    by (simp_all add: lock_inv_iff)
  from f have mem: "(p, h) \<in> set (lockMap s)" by (rule smap_find_mem)
  with hs have hp: "holds plat ?w p h" by auto
  then obtain d where d: "map_of (handles ?w) h = Some d" "can_hold ?w p (ofd_node d)"
    "ofd_node d \<in> files ?w" "if plat = WIN32 then ofd_delete_on_close d else ofd_flock d"
    unfolding holds_iff by blast
  from unlockFile_world [OF f d(1), of plat] obtain s' where s':
    "unlockFile plat s p = Inr s'" "lockMap s' = smap_erase (lockMap s) p"
    "handles (world s') = filter (\<lambda>(k, d'). k \<noteq> h) (handles ?w)"
    "dirs (world s') = dirs ?w" "cwd (world s') = cwd ?w"
    "fault (world s') = fault ?w" "foreign (world s') = foreign ?w"
    "next_handle (world s') = next_handle ?w"
    "files (world s') = (if plat = WIN32 \<and> ofd_delete_on_close d
                         then files ?w - {ofd_node d} else files ?w)"
    by blast
  from d(4) s'(9) have fl: "files (world s') =
      (if plat = WIN32 then files ?w - {ofd_node d} else files ?w)" by auto
  have wf': "os_wf (world s')" by (rule os_wf_filter [OF wf s'(3) s'(8)])
  have df': "distinct (map fst (lockMap s'))" by (simp add: s'(2) distinct_smap_erase [OF df])
  have ds': "distinct (map snd (lockMap s'))" by (simp add: s'(2) distinct_snd_smap_erase [OF ds])
  have hs': "\<forall>(q, k)\<in>set (lockMap s'). holds plat (world s') q k"
  proof (clarify)
    fix q k assume "(q, k) \<in> set (lockMap s')"
    then have "(q, k) \<in> set (smap_erase (lockMap s) p)" by (simp add: s'(2))
    from smap_erase_other_value [OF df ds f this]
    have ne: "k \<noteq> h" and memq: "(q, k) \<in> set (lockMap s)" by simp_all
    from memq hs have hq: "holds plat ?w q k" by auto
    show "holds plat (world s') q k"
    proof (rule holds_after_close [OF hp hq ne s'(3,4,5,6,7)])
      fix d' assume "map_of (handles ?w) h = Some d'"
      with d(1) have "d' = d" by simp
      then show "files ?w - {ofd_node d'} \<subseteq> files (world s')" by (auto simp: fl)
    qed
  qed
  have inv': "lock_inv plat s'" using wf' df' ds' hs' by (simp add: lock_inv_iff)
  have nk: "p \<notin> keys (lockMap s')" by (simp add: s'(2) keys_smap_erase [OF df])
  from d(2) have ch': "can_hold (world s') p (ofd_node d)"
    by (simp add: can_hold_cong [OF s'(4,5,6,7)])
  have fr': "free_node plat (world s') (ofd_node d)" by (rule free_after_close [OF hp s'(3) d(1)])
  from s'(1) inv' d(1,2,3) s'(2) nk s'(3,4,5,6,7,8) fl ch' fr' show ?thesis by blast
qed

lemma lockFile_granted:
  assumes wf: "os_wf (world s)" and free: "p \<notin> keys (lockMap s)"
    and ch: "can_hold (world s) p n" and fr: "free_node plat (world s) n"
  shows "lockFile plat s p = Inr (True, \<lparr>world = locked_world plat (world s) n,
                           lockMap = lockMap s @ [(p, int (next_handle (world s)))]\<rparr>)"
proof -
  from ch have r: "resolve (world s) p = Inr n" and co: "can_open (world s) p n"
    and nf: "n \<notin> foreign (world s)" by (simp_all add: can_hold_def can_open_def)
  show ?thesis
  proof (cases plat)
    case POSIX
    with fr show ?thesis by (simp add: lockFile_posix_wf [OF wf free] r co nf)
  next
    case WIN32
    with fr show ?thesis by (simp add: lockFile_win32_eq [OF free] r ch)
  qed
qed

lemma lockFile_eq:
  assumes wf: "os_wf (world s)" and free: "p \<notin> keys (lockMap s)"
  shows "lockFile plat s p =
     (if \<exists>n. can_hold (world s) p n \<and> free_node plat (world s) n
      then Inr (True, \<lparr>world = locked_world plat (world s) (projr (resolve (world s) p)),
                       lockMap = lockMap s @ [(p, int (next_handle (world s)))]\<rparr>)
      else Inr (False, if plat = POSIX \<and> (\<exists>n. can_open (world s) p n)
                       then \<lparr>world = (world s)\<lparr>files := insert (projr (resolve (world s) p)) (files (world s)),
                                     next_handle := Suc (next_handle (world s))\<rparr>,
                             lockMap = lockMap s\<rparr>
                       else s))"
proof (cases "\<exists>n. can_hold (world s) p n \<and> free_node plat (world s) n")
  case True
  then obtain n where n: "can_hold (world s) p n" "free_node plat (world s) n" by blast
  then have "resolve (world s) p = Inr n" by (simp add: can_hold_def can_open_def)
  with True lockFile_granted [OF wf free n] show ?thesis by simp
next
  case False
  show ?thesis
  proof (cases plat)
    case POSIX
    with False show ?thesis
      by (auto simp: lockFile_posix_wf [OF wf free] can_hold_def can_open_def split: sum.splits)
  next
    case WIN32
    with False show ?thesis
      by (auto simp: lockFile_win32_eq [OF free] can_hold_def can_open_def split: sum.splits)
  qed
qed

lemma os_grants_eq:
  assumes wf: "os_wf w"
  shows "os_grants plat w p = (\<exists>n. can_hold w p n \<and> free_node plat w n)"
proof -
  let ?s = "\<lparr>world = w, lockMap = []\<rparr>"
  have free: "p \<notin> keys (lockMap ?s)" by (simp add: keys_def)
  from lockFile_grants [OF free, of plat] obtain s1
    where "lockFile plat ?s p = Inr (os_grants plat w p, s1)" by auto
  moreover from wf have "os_wf (world ?s)" by simp
  note lockFile_eq [OF this free, of plat]
  ultimately show ?thesis by (auto split: if_splits)
qed

lemma lock_inv_apply_op:
  assumes inv: "lock_inv plat s"
  shows "lock_inv plat (apply_op plat s op)"
proof (cases op)
  case (Acquire p)
  from inv have wf: "os_wf (world s)" by (simp add: lock_inv_iff)
  show ?thesis
  proof (cases "p \<in> keys (lockMap s)")
    case True
    with inv Acquire show ?thesis by (simp add: lockFile_locked)
  next
    case False
    show ?thesis
    proof (cases "\<exists>n. can_hold (world s) p n \<and> free_node plat (world s) n")
      case True
      then obtain n where n: "can_hold (world s) p n" "free_node plat (world s) n" by blast
      from lock_inv_granted [OF inv False n] lockFile_granted [OF wf False n] Acquire
      show ?thesis by simp
    next
      case no: False
      let ?s' = "if plat = POSIX \<and> (\<exists>n. can_open (world s) p n)
                       then \<lparr>world = (world s)\<lparr>files := insert (projr (resolve (world s) p)) (files (world s)),
                                     next_handle := Suc (next_handle (world s))\<rparr>,
                             lockMap = lockMap s\<rparr>
                       else s"
      have "lock_inv plat ?s'"
        by (rule lock_inv_frame [OF inv]) auto
      moreover have "lockFile plat s p = Inr (False, ?s')"
        by (simp only: lockFile_eq [OF wf False] if_not_P [OF no])
      ultimately show ?thesis using Acquire by simp
    qed
  qed
next
  case (Release p)
  show ?thesis
  proof (cases "smap_find (lockMap s) p")
    case None
    then have "p \<notin> keys (lockMap s)" by (simp add: smap_find_def map_of_None_keys)
    with inv Release show ?thesis by (simp add: unlockFile_not_locked)
  next
    case (Some h)
    from lock_inv_unlock [OF inv Some] Release show ?thesis by auto
  qed
qed

lemma lock_inv_run: "lock_inv plat s \<Longrightarrow> lock_inv plat (run plat s ops)"
  by (induction ops arbitrary: s) (simp_all add: run_Nil run_Cons lock_inv_apply_op)

lemma unlock_relock:
  assumes inv: "lock_inv plat s" and f: "smap_find (lockMap s) p = Some h"
  shows "\<exists>s2 s3. unlockFile plat s p = Inr s2 \<and> lockFile plat s2 p = Inr (True, s3)"
  using lock_inv_unlock [OF inv f]
proof (elim exE conjE)
  fix s' d
  assume s': "unlockFile plat s p = Inr s'" "lock_inv plat s'" "p \<notin> keys (lockMap s')"
    "can_hold (world s') p (ofd_node d)" "free_node plat (world s') (ofd_node d)"
  from s'(2) have wf: "os_wf (world s')" by (simp add: lock_inv_iff)
  from lockFile_granted [OF wf s'(3,4,5)] s'(1) show ?thesis by blast
qed

subsection \<open>The walk of \<^verbatim>\<open>mkpath\<close>\<close>

lemma string_find_None:
  "string_find s c pos = None \<Longrightarrow> filter (\<lambda>i. s ! i = c) [pos..<length s] = []"
proof -
  let ?r = "drop pos s"
  let ?n = "length (takeWhile (\<lambda>x. x \<noteq> c) ?r)"
  assume "string_find s c pos = None"
  then have ge: "length s \<le> pos + ?n"
    by (simp add: string_find_def Let_def split: if_splits)
  have "s ! i \<noteq> c" if "pos \<le> i" "i < length s" for i
  proof -
    from that ge have lt: "i - pos < ?n" by arith
    then have "takeWhile (\<lambda>x. x \<noteq> c) ?r ! (i - pos) = ?r ! (i - pos)"
      by (rule takeWhile_nth)
    moreover from lt have "takeWhile (\<lambda>x. x \<noteq> c) ?r ! (i - pos) \<in> set (takeWhile (\<lambda>x. x \<noteq> c) ?r)"
      by (rule nth_mem)
    then have "takeWhile (\<lambda>x. x \<noteq> c) ?r ! (i - pos) \<noteq> c"
      by (auto dest: set_takeWhileD)
    ultimately show ?thesis using that by simp
  qed
  then show ?thesis by (auto simp: filter_empty_conv)
qed

lemma string_find_Some:
  assumes "string_find s c pos = Some i"
  shows "pos \<le> i \<and> i < length s \<and> s ! i = c \<and>
         filter (\<lambda>i. s ! i = c) [pos..<length s] = i # filter (\<lambda>i. s ! i = c) [Suc i..<length s]"
proof -
  let ?r = "drop pos s"
  let ?n = "length (takeWhile (\<lambda>x. x \<noteq> c) ?r)"
  from assms have i: "i = pos + ?n" "i < length s"
    by (auto simp: string_find_def Let_def split: if_splits)
  then have "?n < length ?r" by simp
  then have "\<not> (?r ! ?n \<noteq> c)" by (rule nth_length_takeWhile)
  with i have at: "s ! i = c" by simp
  have before: "s ! j \<noteq> c" if "pos \<le> j" "j < i" for j
  proof -
    from that i have lt: "j - pos < ?n" by arith
    then have "takeWhile (\<lambda>x. x \<noteq> c) ?r ! (j - pos) = ?r ! (j - pos)"
      by (rule takeWhile_nth)
    moreover from lt have "takeWhile (\<lambda>x. x \<noteq> c) ?r ! (j - pos) \<in> set (takeWhile (\<lambda>x. x \<noteq> c) ?r)"
      by (rule nth_mem)
    then have "takeWhile (\<lambda>x. x \<noteq> c) ?r ! (j - pos) \<noteq> c"
      by (auto dest: set_takeWhileD)
    ultimately show ?thesis using that i by simp
  qed
  from i have "[pos..<length s] = [pos..<i] @ i # [Suc i..<length s]"
    by (metis le_add1 less_imp_le_nat upt_add_eq_append upt_conv_Cons le_Suc_ex)
  moreover from before have "filter (\<lambda>i. s ! i = c) [pos..<i] = []"
    by (auto simp: filter_empty_conv)
  ultimately show ?thesis using i at by simp
qed

lemma prefixes_from_0: "prefixes_from path 0 = path_prefixes path"
  by (auto simp: prefixes_from_def path_prefixes_def)

lemma prefixes_from_step:
  assumes "pos < length path"
  shows "prefixes_from path pos =
     take (case string_find path (CHR ''/'') pos of None \<Rightarrow> length path | Some i \<Rightarrow> i) path #
     prefixes_from path
       (Suc (case string_find path (CHR ''/'') pos of None \<Rightarrow> length path | Some i \<Rightarrow> i))"
proof (cases "string_find path (CHR ''/'') pos")
  case None
  note none = string_find_None [OF None]
  from assms have ne: "path \<noteq> []" by auto
  from assms have "length path - 1 \<in> set [pos..<length path]" by auto
  with none have "path ! (length path - 1) \<noteq> CHR ''/''"
    by (metis (mono_tags, lifting) filter_empty_conv)
  with ne have "last path \<noteq> CHR ''/''" by (simp add: last_conv_nth)
  with assms none None show ?thesis by (simp add: prefixes_from_def)
next
  case (Some i)
  note some = string_find_Some [OF Some]
  have "(pos < length path \<and> last path \<noteq> CHR ''/'') = (Suc i < length path \<and> last path \<noteq> CHR ''/'')"
  proof (cases "Suc i < length path")
    case True
    with assms show ?thesis by simp
  next
    case False
    with some have "i = length path - 1" "path \<noteq> []" by auto
    with some have "last path = CHR ''/''" by (simp add: last_conv_nth)
    with False show ?thesis by simp
  qed
  with some Some show ?thesis by (simp add: prefixes_from_def)
qed

lemma mkpath_loop_step:
  "pos < length path \<Longrightarrow>
   mkpath_loop plat path pos w =
     (case exists plat w
        (take (case string_find path (CHR ''/'') pos of None \<Rightarrow> length path | Some i \<Rightarrow> i) path) of
        Inl e \<Rightarrow> (w, Inl e)
      | Inr True \<Rightarrow> mkpath_loop plat path
          ((case string_find path (CHR ''/'') pos of None \<Rightarrow> length path | Some i \<Rightarrow> i) + 1) w
      | Inr False \<Rightarrow>
          (case mkdir w
             (take (case string_find path (CHR ''/'') pos of None \<Rightarrow> length path | Some i \<Rightarrow> i) path) of
             (False, w') \<Rightarrow> (w', Inr False)
           | (True, w') \<Rightarrow> mkpath_loop plat path
               ((case string_find path (CHR ''/'') pos of None \<Rightarrow> length path | Some i \<Rightarrow> i) + 1) w'))"
  by (subst mkpath_loop.simps) (simp add: Let_def)

lemma mkpath_loop_done: "\<not> pos < length path \<Longrightarrow> mkpath_loop plat path pos w = (w, Inr True)"
  by (subst mkpath_loop.simps) simp

lemma string_find_ge:
  "pos < length path \<Longrightarrow>
   pos \<le> (case string_find path c pos of None \<Rightarrow> length path | Some i \<Rightarrow> i)"
  using string_find_Some [of path c pos] by (auto split: option.splits)

lemma mkpath_loop_walk:
  "mkpath_loop plat path pos w = mkpath_walk plat w (prefixes_from path pos)"
proof (induction "length path - pos" arbitrary: pos w rule: less_induct)
  case less
  show ?case
  proof (cases "pos < length path")
    case False
    then show ?thesis by (simp add: mkpath_loop_done prefixes_from_def)
  next
    case True
    let ?pos' = "case string_find path (CHR ''/'') pos of None \<Rightarrow> length path | Some i \<Rightarrow> i"
    from string_find_ge [OF True, of "CHR ''/''"] True
    have dec: "length path - Suc ?pos' < length path - pos" by arith
    have IH: "mkpath_loop plat path (?pos' + 1) w' = mkpath_walk plat w' (prefixes_from path (Suc ?pos'))"
      for w'
      using less.hyps [OF dec] by simp
    show ?thesis
      by (simp only: mkpath_loop_step [OF True] prefixes_from_step [OF True] mkpath_walk.simps IH)
  qed
qed

lemma mkpath_walk_eq: "mkpath plat w path = mkpath_walk plat w (path_prefixes path)"
  by (simp add: mkpath_def mkpath_loop_walk prefixes_from_0)



lemma resolve_nonempty: "resolve w p = Inr n \<Longrightarrow> p \<noteq> []"
  by (auto simp: resolve_def c_str_def)



lemma exists_True_iff:
  "(exists plat w q = Inr True) =
     (\<exists>n. resolve w q = Inr n \<and> fault w n = None \<and>
          (is_dir w n \<or> n \<in> files w \<and> \<not> trailing_slash (c_str q)))"
proof (cases "resolve w q")
  case (Inl e)
  then show ?thesis
    by (cases plat)
      (auto simp: exists_posix_def exists_win32_def sys_stat_def win_GetFileAttributes_def)
next
  case (Inr n)
  then have "q \<noteq> []" by (rule resolve_nonempty)
  with Inr show ?thesis
    by (cases plat)
      (auto simp: exists_posix_def exists_win32_def sys_stat_def win_GetFileAttributes_def
        split: option.splits)
qed














lemma exists_empty: "exists plat w [] = Inr False"
  by (cases plat)
    (simp_all add: exists_posix_def exists_win32_def sys_stat_def resolve_def c_str_def)

lemma mkdir_empty: "mkdir w [] = (False, w)"
  by (simp add: mkdir_def sys_mkdir_def resolve_def c_str_def)

lemma path_prefixes_slash: "\<exists>ps. path_prefixes (CHR ''/'' # rest) = [] # ps"
proof -
  have "[0..<length (CHR ''/'' # rest)] = 0 # [1..<Suc (length rest)]"
    by (simp add: upt_rec)
  then show ?thesis by (simp add: path_prefixes_def)
qed

lemma mkpath_absolute: "mkpath plat w (CHR ''/'' # rest) = (w, Inr False)"
proof -
  obtain ps where "path_prefixes (CHR ''/'' # rest) = [] # ps"
    using path_prefixes_slash by blast
  then show ?thesis
    by (simp add: mkpath_walk_eq exists_empty mkdir_empty)
qed


lemmas os_eval = exists_posix_def exists_win32_def sys_stat_def win_GetFileAttributes_def
  mkdir_def sys_mkdir_def resolve_def c_str_def components_def absolute_def trailing_slash_def
  step_def is_dir_def present_def os_empty_def ENOENT_def ENOTDIR_def ERROR_FILE_NOT_FOUND_def
  ERROR_PATH_NOT_FOUND_def


lemma distinct_path_prefixes: "distinct (path_prefixes path)"
proof -
  let ?is = "filter (\<lambda>i. path ! i = CHR ''/'') [0..<length path]"
  have len: "map length (map (\<lambda>i. take i path) ?is) = ?is"
    by (auto intro!: map_idI)
  have "distinct (map length (map (\<lambda>i. take i path) ?is))"
    unfolding len by simp
  then have d: "distinct (map (\<lambda>i. take i path) ?is)"
    by (rule distinct_map [THEN iffD1, THEN conjunct1])
  have "path \<notin> set (map (\<lambda>i. take i path) ?is)"
    by (auto simp: take_all_iff dest!: arg_cong [where f = length])
  with d show ?thesis by (simp add: path_prefixes_def)
qed

subsection \<open>Locked files and \<^verbatim>\<open>exists\<close>\<close>

lemma exists_False_iff:
  "resolve w q = Inr n \<Longrightarrow> fault w n = None \<Longrightarrow> \<not> is_dir w n \<Longrightarrow> n \<notin> files w \<Longrightarrow>
   exists plat w q = Inr False"
  by (cases plat)
    (auto simp: exists_posix_def exists_win32_def sys_stat_def win_GetFileAttributes_def
      dest: resolve_nonempty)

lemma can_hold_exists:
  "can_hold w p n \<Longrightarrow> n \<in> files w \<Longrightarrow> exists plat w p = Inr True"
  unfolding exists_True_iff by (auto simp: can_hold_def can_open_def)

lemma can_hold_exists_not:
  "can_hold w p n \<Longrightarrow> n \<notin> files w \<Longrightarrow> exists plat w p = Inr False"
  by (rule exists_False_iff [of w p n]) (simp_all add: can_hold_def can_open_def)

lemma lock_inv_reachable:
  "lockMap s0 = [] \<Longrightarrow> os_wf (world s0) \<Longrightarrow> lock_inv plat (run plat s0 ops)"
  by (rule lock_inv_run) (rule lock_inv_init)

lemma lockFile_step: "lockFile plat s p = Inr (b, s1) \<Longrightarrow> s1 = apply_op plat s (Acquire p)"
  by simp

lemmas lock_eval = can_hold_def can_open_def free_node_def blocks_def resolve_def c_str_def
  components_def absolute_def trailing_slash_def step_def is_dir_def os_empty_def
  state_init_def locked_world_def os_wf_def keys_def

lemma two_locks:
  "run plat state_init [Acquire ''stellar.lock'', Acquire ''other.lock''] =
     \<lparr>world = locked_world plat (locked_world plat os_empty [''stellar.lock'']) [''other.lock''],
      lockMap = [(''stellar.lock'', 3), (''other.lock'', 4)]\<rparr>"
proof -
  let ?p = "''stellar.lock''"
  let ?q = "''other.lock''"
  let ?s1 = "\<lparr>world = locked_world plat os_empty [?p], lockMap = [(?p, 3)]\<rparr>"
  have "lockFile plat state_init ?p =
      Inr (True, \<lparr>world = locked_world plat (world state_init) [?p],
                  lockMap = lockMap state_init @ [(?p, int (next_handle (world state_init)))]\<rparr>)"
    by (rule lockFile_granted) (simp_all add: lock_eval)
  then have one: "lockFile plat state_init ?p = Inr (True, ?s1)"
    by (simp add: state_init_def os_empty_def)
  have "lockFile plat ?s1 ?q =
      Inr (True, \<lparr>world = locked_world plat (world ?s1) [?q],
                  lockMap = lockMap ?s1 @ [(?q, int (next_handle (world ?s1)))]\<rparr>)"
    by (rule lockFile_granted) (simp_all add: lock_eval)
  then have two: "lockFile plat ?s1 ?q =
      Inr (True, \<lparr>world = locked_world plat (locked_world plat os_empty [?p]) [?q],
                  lockMap = [(?p, 3), (?q, 4)]\<rparr>)"
    by (simp add: locked_world_def os_empty_def)
  from one two show ?thesis by (simp add: run_def)
qed

section \<open>The claims\<close>

subsection \<open>Naming\<close>

text \<open>
  Claim C4. For every 32-bit \<open>id\<close>, \<open>hexStr id\<close> has exactly 8 characters, all of them
  lowercase hexadecimal digits; reading it back as a hexadecimal numeral gives \<open>id\<close>;
  and for all \<open>a\<close> and \<open>b\<close>, \<open>hexStr a\<close> is below \<open>hexStr b\<close> in the order of strings
  exactly when \<open>a < b\<close>, so that \<open>hexStr\<close> is injective. Here \<open>hexStr\<close> rests on the
  model of the format string \<^verbatim>\<open>{:08x}\<close> given above.
\<close>

theorem hexStr_render:
  "length (hexStr a) = 8 \<and> list_all is_lower_hex (hexStr a) \<and>
   hex_decode (hexStr a) = Some (unat a) \<and>
   string_less (hexStr a) (hexStr b) = (a < b) \<and>
   (hexStr a = hexStr b) = (a = b)"
  by (simp only: hexStr_length hexStr_decode hexStr_less hexStr_inj)
    (simp add: hexStr_fixed hex_fixed_lower)

text \<open>The example of the specification, and the padding of a small number.\<close>

lemma hexStr_examples:
  "hexStr 0x1a2b3c4d = ''1a2b3c4d'' \<and> hexStr 0 = ''00000000'' \<and> hexStr 255 = ''000000ff''"
proof -
  have pad: "replicate 7 c = [c, c, c, c, c, c, c]" "replicate 6 c = [c, c, c, c, c, c]"
    for c :: char
    by (simp_all add: numeral_eq_Suc)
  show ?thesis
    by (simp add: hexStr_def fmt_08x_def fmt_pad_def hex_digit_def fmt_hex_digits.simps pad)
qed

text \<open>
  Claim C5, as amended. \<open>hexDir h\<close> returns the first three two-character segments of
  \<open>h\<close> joined by \<^verbatim>\<open>/\<close> when \<open>h\<close> begins with six hexadecimal digits and no line feed or
  carriage return follows them, and fails its assertion on every other string: when
  \<open>h\<close> is shorter than six characters, when one of the first six is not a hexadecimal
  digit, and when a line terminator comes after them (the \<^verbatim>\<open>.\<close> of the pattern does not
  match one, and \<^verbatim>\<open>regex_match\<close> wants the whole string matched).
\<close>

theorem hexDir_contract:
  "hexDir h =
     (if 6 \<le> length h \<and> list_all isxdigit (take 6 h) \<and>
         list_all (\<lambda>c. \<not> line_terminator c) (drop 6 h)
      then Inr (take 2 h @ ''/'' @ take 2 (drop 2 h) @ ''/'' @ take 2 (drop 4 h))
      else Inl AssertFailed)"
  by (rule hexDir_eq)

text \<open>
  The theorem at the example of the specification, at a string that is too short, at one
  with a character that is no digit, and at one with a line feed at its end.
\<close>

theorem hexDir_contract_witness:
  "hexDir ''1a2b3c4d'' = Inr ''1a/2b/3c'' \<and> hexDir ''1a2b3'' = Inl AssertFailed \<and>
   hexDir ''1a2b3g4d'' = Inl AssertFailed \<and>
   hexDir (''1a2b3c4d'' @ [CHR 0x0A]) = Inl AssertFailed"
  by (simp add: hexDir_contract isxdigit_def line_terminator_def)

text \<open>
  Claim C5 as it was stated fails: this string begins with six hexadecimal digits, and
  \<open>hexDir\<close> fails its assertion on it.
\<close>

theorem hexDir_line_feed_counterexample:
  "6 \<le> length (''1a2b3c'' @ [CHR 0x0A]) \<and>
   list_all isxdigit (take 6 (''1a2b3c'' @ [CHR 0x0A])) \<and>
   hexDir (''1a2b3c'' @ [CHR 0x0A]) = Inl AssertFailed"
  by (simp add: hexDir_eq isxdigit_def line_terminator_def)

text \<open>
  Claim C6. For a valid hexadecimal string \<open>h\<close> of 8 characters and all strings \<open>t\<close>
  and \<open>s\<close>: \<open>remoteDir t h\<close> succeeds with \<open>t\<close>, \<^verbatim>\<open>/\<close> and the shard path of \<open>h\<close>;
  \<open>baseName t h s\<close> is \<open>t\<close>, \<^verbatim>\<open>-\<close>, \<open>h\<close>, \<^verbatim>\<open>.\<close>, \<open>s\<close>; and \<open>remoteName t h s\<close>
  succeeds with the result of \<open>remoteDir t h\<close>, \<^verbatim>\<open>/\<close> and \<open>baseName t h s\<close>.
\<close>

theorem remoteName_composition:
  "length h = 8 \<Longrightarrow> list_all isxdigit h \<Longrightarrow>
   (\<exists>shard dir.
      hexDir h = Inr shard \<and>
      shard = take 2 h @ ''/'' @ take 2 (drop 2 h) @ ''/'' @ take 2 (drop 4 h) \<and>
      remoteDir t h = Inr dir \<and> dir = t @ ''/'' @ shard \<and>
      baseName t h s = t @ ''-'' @ h @ ''.'' @ s \<and>
      remoteName t h s = Inr (dir @ ''/'' @ baseName t h s))"
  by (simp add: remoteName_def remoteDir_def baseName_def hexDir_valid)

text \<open>The theorem at the example of the specification.\<close>

theorem remoteName_composition_witness:
  "length ''1a2b3c4d'' = 8 \<and> list_all isxdigit ''1a2b3c4d'' \<and>
   hexDir ''1a2b3c4d'' = Inr ''1a/2b/3c'' \<and>
   remoteDir ''ledger'' ''1a2b3c4d'' = Inr ''ledger/1a/2b/3c'' \<and>
   baseName ''ledger'' ''1a2b3c4d'' ''xdr'' = ''ledger-1a2b3c4d.xdr'' \<and>
   remoteName ''ledger'' ''1a2b3c4d'' ''xdr'' = Inr ''ledger/1a/2b/3c/ledger-1a2b3c4d.xdr''"
proof -
  have valid: "length ''1a2b3c4d'' = 8" "list_all isxdigit ''1a2b3c4d''"
    by (simp_all add: isxdigit_def)
  from remoteName_composition [OF valid, of "''ledger''" "''xdr''"] valid
  show ?thesis by auto
qed



subsection \<open>The lock registry\<close>

text \<open>
  Claim C1. On both platforms: in every state whose table has the key \<open>p\<close>, \<open>lockFile\<close>
  on \<open>p\<close> throws the error "file is already locked by this process" (an error, on the
  left of the sum, and not the result false), and \<open>unlockFile\<close> on a path that is not a
  key of the table throws "file was not locked". On a path that is not a key,
  \<open>lockFile\<close> returns, and returns what the operating system answers to its calls: true
  when the lock is granted. Once \<open>lockFile\<close> has returned true on \<open>p\<close>, and through any
  calls that do not release \<open>p\<close>, another \<open>lockFile\<close> on \<open>p\<close> throws. And in every state
  the process reaches from an empty table, after \<open>lockFile\<close> has returned true on \<open>p\<close>
  and any calls that do not release \<open>p\<close> have been made, other locks taken and released
  among them, \<open>unlockFile\<close> on \<open>p\<close> succeeds and the next \<open>lockFile\<close> on \<open>p\<close> returns
  true again.
\<close>

theorem lock_protocol:
  "(p \<in> keys (lockMap s) \<longrightarrow> lockFile plat s p = Inl AlreadyLocked) \<and>
   (p \<notin> keys (lockMap s) \<longrightarrow> unlockFile plat s p = Inl NotLocked) \<and>
   (p \<notin> keys (lockMap s) \<longrightarrow>
      (\<exists>s1. lockFile plat s p = Inr (os_grants plat (world s) p, s1))) \<and>
   (lockFile plat s p = Inr (True, s1) \<and> Release p \<notin> set ops \<longrightarrow>
      lockFile plat (run plat s1 ops) p = Inl AlreadyLocked) \<and>
   (lockMap s0 = [] \<and> os_wf (world s0) \<and> s = run plat s0 ops0 \<and>
    lockFile plat s p = Inr (True, s1) \<and> Release p \<notin> set ops \<longrightarrow>
      (\<exists>s2 s3. unlockFile plat (run plat s1 ops) p = Inr s2 \<and>
         lockFile plat s2 p = Inr (True, s3)))"
proof (intro conjI impI)
  assume "p \<in> keys (lockMap s)"
  then show "lockFile plat s p = Inl AlreadyLocked" by (rule lockFile_locked)
next
  assume "p \<notin> keys (lockMap s)"
  then show "unlockFile plat s p = Inl NotLocked" by (rule unlockFile_not_locked)
next
  assume "p \<notin> keys (lockMap s)"
  from lockFile_grants [OF this, of plat]
  show "\<exists>s1. lockFile plat s p = Inr (os_grants plat (world s) p, s1)" by blast
next
  assume a: "lockFile plat s p = Inr (True, s1) \<and> Release p \<notin> set ops"
  then have "p \<in> keys (lockMap s1)"
    using lockFile_table [of plat s p True s1] by (simp add: keys_append1)
  with a have "p \<in> keys (lockMap (run plat s1 ops))"
    by (simp add: run_keeps)
  then show "lockFile plat (run plat s1 ops) p = Inl AlreadyLocked"
    by (rule lockFile_locked)
next
  assume a: "lockMap s0 = [] \<and> os_wf (world s0) \<and> s = run plat s0 ops0 \<and>
    lockFile plat s p = Inr (True, s1) \<and> Release p \<notin> set ops"
  then have lf: "lockFile plat s p = Inr (True, s1)" by blast
  then have s1: "s1 = apply_op plat s (Acquire p)" by (rule lockFile_step)
  from a have "lock_inv plat (run plat s0 ops0)" by (intro lock_inv_reachable) simp_all
  with a have "lock_inv plat s" by simp
  then have "lock_inv plat s1" unfolding s1 by (rule lock_inv_apply_op)
  then have inv: "lock_inv plat (run plat s1 ops)" by (rule lock_inv_run)
  from lockFile_table [OF lf] have "p \<in> keys (lockMap s1)"
    by (simp add: keys_append1)
  with a have "p \<in> keys (lockMap (run plat s1 ops))"
    by (simp add: run_keeps)
  then obtain h where "smap_find (lockMap (run plat s1 ops)) p = Some h"
    using keys_smap_find by blast
  from unlock_relock [OF inv this]
  show "\<exists>s2 s3. unlockFile plat (run plat s1 ops) p = Inr s2 \<and>
      lockFile plat s2 p = Inr (True, s3)" .
qed

text \<open>
  The theorem on both platforms, from the start of the process: the system grants the
  lock on \<^verbatim>\<open>stellar.lock\<close>, \<open>lockFile\<close> returns true and the table has the entry; while it
  is held, and after the lock on \<^verbatim>\<open>other.lock\<close> has been taken as well, a second
  \<open>lockFile\<close> throws, and \<open>unlockFile\<close> followed by \<open>lockFile\<close> succeeds.
\<close>

theorem lock_protocol_witness:
  "os_grants POSIX (world state_init) ''stellar.lock'' \<and>
   os_grants WIN32 (world state_init) ''stellar.lock'' \<and>
   lockFile POSIX state_init ''stellar.lock'' =
     Inr (True, run POSIX state_init [Acquire ''stellar.lock'']) \<and>
   lockFile WIN32 state_init ''stellar.lock'' =
     Inr (True, run WIN32 state_init [Acquire ''stellar.lock'']) \<and>
   lockMap (run POSIX state_init [Acquire ''stellar.lock'', Acquire ''other.lock'']) =
     [(''stellar.lock'', 3), (''other.lock'', 4)] \<and>
   lockMap (run WIN32 state_init [Acquire ''stellar.lock'', Acquire ''other.lock'']) =
     [(''stellar.lock'', 3), (''other.lock'', 4)] \<and>
   lockFile POSIX (run POSIX state_init [Acquire ''stellar.lock'', Acquire ''other.lock''])
     ''stellar.lock'' = Inl AlreadyLocked \<and>
   lockFile WIN32 (run WIN32 state_init [Acquire ''stellar.lock'', Acquire ''other.lock''])
     ''stellar.lock'' = Inl AlreadyLocked \<and>
   (\<exists>s2 s3.
      unlockFile POSIX (run POSIX state_init [Acquire ''stellar.lock'', Acquire ''other.lock''])
        ''stellar.lock'' = Inr s2 \<and>
      lockFile POSIX s2 ''stellar.lock'' = Inr (True, s3)) \<and>
   (\<exists>s2 s3.
      unlockFile WIN32 (run WIN32 state_init [Acquire ''stellar.lock'', Acquire ''other.lock''])
        ''stellar.lock'' = Inr s2 \<and>
      lockFile WIN32 s2 ''stellar.lock'' = Inr (True, s3)) \<and>
   unlockFile POSIX state_init ''stellar.lock'' = Inl NotLocked \<and>
   unlockFile WIN32 state_init ''stellar.lock'' = Inl NotLocked"
proof -
  let ?p = "''stellar.lock''"
  let ?q = "''other.lock''"
  have start: "lockMap state_init = []" "os_wf (world state_init)"
    "?p \<notin> keys (lockMap state_init)"
    by (simp_all add: state_init_def os_empty_def os_wf_def keys_def)
  have ops: "Release ?p \<notin> set [Acquire ?q]" by simp
  have both: "run plat (run plat state_init [Acquire ?p]) [Acquire ?q] =
      run plat state_init [Acquire ?p, Acquire ?q]" for plat
    by (simp add: run_def)
  have "os_grants plat (world state_init) ?p \<and>
      lockFile plat state_init ?p = Inr (True, run plat state_init [Acquire ?p]) \<and>
      lockFile plat (run plat state_init [Acquire ?p, Acquire ?q]) ?p = Inl AlreadyLocked \<and>
      (\<exists>s2 s3. unlockFile plat (run plat state_init [Acquire ?p, Acquire ?q]) ?p = Inr s2 \<and>
         lockFile plat s2 ?p = Inr (True, s3)) \<and>
      unlockFile plat state_init ?p = Inl NotLocked" for plat
  proof -
    note at_start = lock_protocol [where plat = plat and s = state_init and p = ?p
        and ?s1.0 = "run plat state_init [Acquire ?p]" and ops = "[Acquire ?q]"
        and ?s0.0 = state_init and ?ops0.0 = "[]"]
    from at_start start(3) obtain t
      where t: "lockFile plat state_init ?p = Inr (os_grants plat (world state_init) ?p, t)"
      by blast
    have "os_grants plat (world state_init) ?p"
      unfolding os_grants_eq [OF start(2)] by (simp add: lock_eval)
    with start(3)
    have "lockFile plat state_init ?p = Inr (True, run plat state_init [Acquire ?p])"
      by (rule lockFile_run)
    with t have granted: "os_grants plat (world state_init) ?p"
      "lockFile plat state_init ?p = Inr (True, run plat state_init [Acquire ?p])"
      by simp_all
    from at_start granted(2) ops
    have again: "lockFile plat (run plat (run plat state_init [Acquire ?p]) [Acquire ?q]) ?p =
        Inl AlreadyLocked"
      by blast
    have "state_init = run plat state_init []" by (simp add: run_Nil)
    with at_start start(1,2) granted(2) ops
    have relock: "\<exists>s2 s3.
        unlockFile plat (run plat (run plat state_init [Acquire ?p]) [Acquire ?q]) ?p = Inr s2 \<and>
        lockFile plat s2 ?p = Inr (True, s3)"
      by blast
    from at_start start(3) have "unlockFile plat state_init ?p = Inl NotLocked" by blast
    with granted again relock show ?thesis by (simp only: both)
  qed
  from this [of POSIX] this [of WIN32] two_locks [of POSIX] two_locks [of WIN32]
  show ?thesis by simp
qed

text \<open>
  Claim C2. Start from an empty table and run any sequence of \<open>lockFile\<close> and
  \<open>unlockFile\<close> calls. In the state \<open>s\<close> reached, no path has two entries. Whatever
  the next call \<open>op\<close> is: a path that has an entry after it and had none before is the
  path of \<open>op\<close>, which is a \<open>lockFile\<close> that returned true; a path that had an entry
  before and has none after is the path of \<open>op\<close>, which is an \<open>unlockFile\<close>. A
  \<open>lockFile\<close> that returns false, the operating system having refused the lock, leaves
  the table as it was; one that returns true adds its path, which had no entry; an
  \<open>unlockFile\<close> that succeeds removes its path and nothing else.
\<close>

theorem lock_table_invariant:
  "lockMap s0 = [] \<Longrightarrow> s = run plat s0 ops \<Longrightarrow> s' = apply_op plat s op \<Longrightarrow>
   distinct (map fst (lockMap s)) \<and>
   (q \<in> keys (lockMap s') \<and> q \<notin> keys (lockMap s) \<longrightarrow>
      op = Acquire q \<and> (\<exists>t. lockFile plat s q = Inr (True, t))) \<and>
   (q \<in> keys (lockMap s) \<and> q \<notin> keys (lockMap s') \<longrightarrow> op = Release q) \<and>
   (lockFile plat s p = Inr (False, t) \<longrightarrow> lockMap t = lockMap s) \<and>
   (lockFile plat s p = Inr (True, t) \<longrightarrow>
      p \<notin> keys (lockMap s) \<and> keys (lockMap t) = insert p (keys (lockMap s))) \<and>
   (unlockFile plat s p = Inr t \<longrightarrow> keys (lockMap t) = keys (lockMap s) - {p})"
proof -
  assume s0: "lockMap s0 = []" and s: "s = run plat s0 ops" and s': "s' = apply_op plat s op"
  have d: "distinct (map fst (lockMap s))"
    unfolding s using s0 by (intro run_distinct) simp
  have added: "op = Acquire q \<and> (\<exists>t. lockFile plat s q = Inr (True, t))"
    if "q \<in> keys (lockMap s') \<and> q \<notin> keys (lockMap s)"
  proof (cases op)
    case (Acquire r)
    with that s' apply_op_Acquire_keys [of plat s r] show ?thesis
      by (auto simp del: apply_op.simps split: if_splits)
  next
    case (Release r)
    with that s' apply_op_Release_keys [of plat s r] show ?thesis
      by (auto simp del: apply_op.simps)
  qed
  have removed: "op = Release q" if "q \<in> keys (lockMap s) \<and> q \<notin> keys (lockMap s')"
    using that s' apply_op_keeps [of q s op plat] by auto
  have denied: "lockMap t = lockMap s" if "lockFile plat s p = Inr (False, t)"
    using lockFile_table [OF that] by simp
  have granted: "p \<notin> keys (lockMap s) \<and> keys (lockMap t) = insert p (keys (lockMap s))"
    if "lockFile plat s p = Inr (True, t)"
    using lockFile_table [OF that] by (simp add: keys_append1)
  have released: "keys (lockMap t) = keys (lockMap s) - {p}" if "unlockFile plat s p = Inr t"
    using unlockFile_table [OF that] d by (simp add: keys_smap_erase)
  from d added removed denied granted released show ?thesis by blast
qed

text \<open>
  The theorem on POSIX, on a machine where another process holds \<^verbatim>\<open>held.lock\<close>: at the
  start, where \<^verbatim>\<open>a.lock\<close> is granted and \<^verbatim>\<open>held.lock\<close> is refused, and after \<^verbatim>\<open>a.lock\<close>
  has been taken, where it is released.
\<close>

theorem lock_table_invariant_witness:
  "lockMap \<lparr>world = os_empty\<lparr>foreign := {[''held.lock'']}\<rparr>, lockMap = []\<rparr> = [] \<and>
   distinct (map fst (lockMap (run POSIX
     \<lparr>world = os_empty\<lparr>foreign := {[''held.lock'']}\<rparr>, lockMap = []\<rparr> [Acquire ''a.lock'']))) \<and>
   ''a.lock'' \<in> keys (lockMap (run POSIX
     \<lparr>world = os_empty\<lparr>foreign := {[''held.lock'']}\<rparr>, lockMap = []\<rparr> [Acquire ''a.lock''])) \<and>
   ''a.lock'' \<notin> keys (lockMap (run POSIX
     \<lparr>world = os_empty\<lparr>foreign := {[''held.lock'']}\<rparr>, lockMap = []\<rparr>
     [Acquire ''a.lock'', Release ''a.lock''])) \<and>
   (\<exists>t. lockFile POSIX \<lparr>world = os_empty\<lparr>foreign := {[''held.lock'']}\<rparr>, lockMap = []\<rparr>
      ''a.lock'' = Inr (True, t) \<and> keys (lockMap t) = {''a.lock''}) \<and>
   (\<exists>t. lockFile POSIX \<lparr>world = os_empty\<lparr>foreign := {[''held.lock'']}\<rparr>, lockMap = []\<rparr>
      ''held.lock'' = Inr (False, t) \<and> lockMap t = []) \<and>
   (\<exists>t. unlockFile POSIX (run POSIX
      \<lparr>world = os_empty\<lparr>foreign := {[''held.lock'']}\<rparr>, lockMap = []\<rparr> [Acquire ''a.lock''])
      ''a.lock'' = Inr t \<and> keys (lockMap t) = {})"
proof -
  let ?s0 = "\<lparr>world = os_empty\<lparr>foreign := {[''held.lock'']}\<rparr>, lockMap = []\<rparr>"
  let ?a = "''a.lock''"
  let ?h = "''held.lock''"
  let ?s1 = "run POSIX ?s0 [Acquire ?a]"
  let ?s2 = "run POSIX ?s0 [Acquire ?a, Release ?a]"
  have empty: "lockMap ?s0 = []" by simp
  have free: "?a \<notin> keys (lockMap ?s0)" "?h \<notin> keys (lockMap ?s0)"
    by (simp_all add: keys_def)
  have wf: "os_wf (world ?s0)" by (simp add: os_wf_def os_empty_def)
  have "os_grants POSIX (world ?s0) ?a"
    unfolding os_grants_eq [OF wf] by (simp add: lock_eval)
  with free(1) have granted: "lockFile POSIX ?s0 ?a = Inr (True, ?s1)"
    by (rule lockFile_run)
  have "\<not> os_grants POSIX (world ?s0) ?h"
    unfolding os_grants_eq [OF wf] by (simp add: lock_eval)
  with free(2) have denied: "lockFile POSIX ?s0 ?h = Inr (False, run POSIX ?s0 [Acquire ?h])"
    by (rule lockFile_run_denied)
  from granted have keys1: "keys (lockMap ?s1) = {?a}"
    using lockFile_table [of POSIX ?s0 ?a True ?s1] by (simp add: keys_append1 keys_def)
  then have "?a \<in> keys (lockMap ?s1)" by simp
  then have released: "unlockFile POSIX ?s1 ?a = Inr (run POSIX ?s1 [Release ?a])"
    by (rule unlockFile_run)
  have s2: "run POSIX ?s1 [Release ?a] = ?s2" "apply_op POSIX ?s1 (Release ?a) = ?s2"
    "apply_op POSIX ?s0 (Acquire ?a) = ?s1" "run POSIX ?s0 [] = ?s0"
    by (simp_all add: run_def)
  note at_start = lock_table_invariant [OF empty s2(4) [symmetric] s2(3) [symmetric],
      of ?a ?h "run POSIX ?s0 [Acquire ?h]"]
    lock_table_invariant [OF empty s2(4) [symmetric] s2(3) [symmetric], of ?a ?a ?s1]
  note later = lock_table_invariant [OF empty refl s2(2) [symmetric], of ?a ?a ?s2]
  from at_start later granted denied released keys1 s2(1) empty
  show ?thesis by (auto simp: keys_def)
qed

text \<open>
  Claim C3, as amended. Take any state the process reaches from an empty table and any
  path \<open>p\<close> with an entry in the table, \<open>h\<close> its handle. The handle is open on the file
  \<open>p\<close> names, and the file is there. \<open>unlockFile\<close> on \<open>p\<close> succeeds; it closes \<open>h\<close>, and
  no other handle; it removes the entry of \<open>p\<close>, and no other entry; it makes no call to
  delete the file, and leaves every directory as it was. On POSIX every file is left as
  it was and \<open>p\<close> still exists after the release. On Windows the file was opened with
  \<^verbatim>\<open>FILE_FLAG_DELETE_ON_CLOSE\<close>: closing the handle deletes this file, and no other, and
  \<open>p\<close> does not exist after the release.
\<close>

theorem unlockFile_keeps_file:
  "lockMap s0 = [] \<Longrightarrow> os_wf (world s0) \<Longrightarrow> s = run plat s0 ops \<Longrightarrow>
   smap_find (lockMap s) p = Some h \<Longrightarrow>
   \<exists>s' d. unlockFile plat s p = Inr s' \<and>
     map_of (handles (world s)) h = Some d \<and> resolve (world s) p = Inr (ofd_node d) \<and>
     ofd_node d \<in> files (world s) \<and> exists plat (world s) p = Inr True \<and>
     handles (world s') = filter (\<lambda>(k, d'). k \<noteq> h) (handles (world s)) \<and>
     map_of (handles (world s')) h = None \<and>
     lockMap s' = smap_erase (lockMap s) p \<and>
     keys (lockMap s') = keys (lockMap s) - {p} \<and>
     dirs (world s') = dirs (world s) \<and>
     (plat = POSIX \<longrightarrow>
        files (world s') = files (world s) \<and> exists POSIX (world s') p = Inr True) \<and>
     (plat = WIN32 \<longrightarrow>
        files (world s') = files (world s) - {ofd_node d} \<and>
        exists WIN32 (world s') p = Inr False)"
proof -
  assume s0: "lockMap s0 = []" "os_wf (world s0)" and s: "s = run plat s0 ops"
    and f: "smap_find (lockMap s) p = Some h"
  from s0 have inv: "lock_inv plat s" unfolding s by (rule lock_inv_reachable)
  then have df: "distinct (map fst (lockMap s))" by (simp add: lock_inv_iff)
  from lock_inv_unlock [OF inv f] show ?thesis
  proof (elim exE conjE)
    fix s' d
    assume u: "unlockFile plat s p = Inr s'" "map_of (handles (world s)) h = Some d"
      "can_hold (world s) p (ofd_node d)" "ofd_node d \<in> files (world s)"
      "lockMap s' = smap_erase (lockMap s) p"
      "handles (world s') = filter (\<lambda>(k, d'). k \<noteq> h) (handles (world s))"
      "dirs (world s') = dirs (world s)"
      "files (world s') =
         (if plat = WIN32 then files (world s) - {ofd_node d} else files (world s))"
      "can_hold (world s') p (ofd_node d)"
    from u(3) have r: "resolve (world s) p = Inr (ofd_node d)"
      by (simp add: can_hold_def can_open_def)
    from u(3,4) have e: "exists plat (world s) p = Inr True" by (rule can_hold_exists)
    from u(6) have m: "map_of (handles (world s')) h = None"
      by (simp add: map_of_filter_same)
    from u(5) df have k: "keys (lockMap s') = keys (lockMap s) - {p}"
      by (simp add: keys_smap_erase)
    have posix: "files (world s') = files (world s) \<and> exists POSIX (world s') p = Inr True"
      if "plat = POSIX"
    proof -
      from that u(8) have fl: "files (world s') = files (world s)" by simp
      with u(4) have "ofd_node d \<in> files (world s')" by simp
      from can_hold_exists [OF u(9) this, of plat] fl that show ?thesis by simp
    qed
    have win32: "files (world s') = files (world s) - {ofd_node d} \<and>
        exists WIN32 (world s') p = Inr False"
      if "plat = WIN32"
    proof -
      from that u(8) have fl: "files (world s') = files (world s) - {ofd_node d}" by simp
      then have "ofd_node d \<notin> files (world s')" by simp
      from can_hold_exists_not [OF u(9) this, of plat] fl that show ?thesis by simp
    qed
    from u(1,2) r u(4) e u(6) m u(5) k u(7) posix win32 show ?thesis by blast
  qed
qed

text \<open>
  The theorem on both platforms, from the start of the process, after the locks on
  \<^verbatim>\<open>stellar.lock\<close> and \<^verbatim>\<open>other.lock\<close> have been taken, with the handles 3 and 4: the
  release of \<^verbatim>\<open>stellar.lock\<close> closes the handle 3 and leaves the handle 4 and the entry of
  \<^verbatim>\<open>other.lock\<close>; the file \<^verbatim>\<open>stellar.lock\<close> is still there on POSIX and is gone on
  Windows, and the file \<^verbatim>\<open>other.lock\<close> is there on both.
\<close>

theorem unlockFile_keeps_file_witness:
  "lockMap state_init = [] \<and> os_wf (world state_init) \<and>
   smap_find (lockMap (run POSIX state_init [Acquire ''stellar.lock'', Acquire ''other.lock'']))
     ''stellar.lock'' = Some 3 \<and>
   smap_find (lockMap (run WIN32 state_init [Acquire ''stellar.lock'', Acquire ''other.lock'']))
     ''stellar.lock'' = Some 3 \<and>
   (\<exists>s'. unlockFile POSIX
        (run POSIX state_init [Acquire ''stellar.lock'', Acquire ''other.lock''])
        ''stellar.lock'' = Inr s' \<and>
      map fst (handles (world s')) = [4] \<and> lockMap s' = [(''other.lock'', 4)] \<and>
      files (world s') = {[''stellar.lock''], [''other.lock'']} \<and>
      exists POSIX (world s') ''stellar.lock'' = Inr True) \<and>
   (\<exists>s'. unlockFile WIN32
        (run WIN32 state_init [Acquire ''stellar.lock'', Acquire ''other.lock''])
        ''stellar.lock'' = Inr s' \<and>
      map fst (handles (world s')) = [4] \<and> lockMap s' = [(''other.lock'', 4)] \<and>
      files (world s') = {[''other.lock'']} \<and>
      exists WIN32 (world s') ''stellar.lock'' = Inr False)"
proof -
  let ?p = "''stellar.lock''"
  let ?q = "''other.lock''"
  have start: "lockMap state_init = []" "os_wf (world state_init)"
    by (simp_all add: state_init_def os_empty_def os_wf_def)
  have entry: "smap_find (lockMap (run plat state_init [Acquire ?p, Acquire ?q])) ?p = Some 3"
    for plat
    by (simp add: two_locks smap_find_def)
  have "\<exists>s'. unlockFile plat (run plat state_init [Acquire ?p, Acquire ?q]) ?p = Inr s' \<and>
      map fst (handles (world s')) = [4] \<and> lockMap s' = [(?q, 4)] \<and>
      files (world s') =
        (if plat = WIN32 then {[?q]} else {[?p], [?q]}) \<and>
      exists plat (world s') ?p = Inr (plat = POSIX)" for plat
    using unlockFile_keeps_file [OF start refl entry [of plat]]
  proof (elim exE conjE)
    fix s' d
    assume u: "unlockFile plat (run plat state_init [Acquire ?p, Acquire ?q]) ?p = Inr s'"
      "map_of (handles (world (run plat state_init [Acquire ?p, Acquire ?q]))) 3 = Some d"
      "handles (world s') = filter (\<lambda>(k, d'). k \<noteq> 3)
         (handles (world (run plat state_init [Acquire ?p, Acquire ?q])))"
      "lockMap s' = smap_erase (lockMap (run plat state_init [Acquire ?p, Acquire ?q])) ?p"
      "plat = POSIX \<longrightarrow>
         files (world s') = files (world (run plat state_init [Acquire ?p, Acquire ?q])) \<and>
         exists POSIX (world s') ?p = Inr True"
      "plat = WIN32 \<longrightarrow>
         files (world s') =
           files (world (run plat state_init [Acquire ?p, Acquire ?q])) - {ofd_node d} \<and>
         exists WIN32 (world s') ?p = Inr False"
    from u(2) have d: "ofd_node d = [?p]"
      by (auto simp: two_locks locked_world_def os_empty_def)
    from u(3) have h: "map fst (handles (world s')) = [4]"
      by (simp add: two_locks locked_world_def os_empty_def)
    from u(4) have l: "lockMap s' = [(?q, 4)]" by (simp add: two_locks)
    from u(5,6) d have "files (world s') = (if plat = WIN32 then {[?q]} else {[?p], [?q]}) \<and>
        exists plat (world s') ?p = Inr (plat = POSIX)"
      by (cases plat) (auto simp: two_locks locked_world_def os_empty_def)
    with u(1) h l show ?thesis by (intro exI [of _ s']) simp
  qed
  from this [of POSIX] this [of WIN32] start entry [of POSIX] entry [of WIN32]
  show ?thesis by simp
qed

text \<open>
  Claim C3 as it was stated, "on every platform branch", fails on Windows: at the start
  of the process \<open>lockFile\<close> creates \<^verbatim>\<open>stellar.lock\<close>, which exists while the lock is held,
  and after \<open>unlockFile\<close> the file is not there.
\<close>

theorem unlockFile_win32_counterexample:
  "lockFile WIN32 state_init ''stellar.lock'' =
     Inr (True, run WIN32 state_init [Acquire ''stellar.lock'']) \<and>
   exists WIN32 (world (run WIN32 state_init [Acquire ''stellar.lock''])) ''stellar.lock'' =
     Inr True \<and>
   unlockFile WIN32 (run WIN32 state_init [Acquire ''stellar.lock'']) ''stellar.lock'' =
     Inr (run WIN32 state_init [Acquire ''stellar.lock'', Release ''stellar.lock'']) \<and>
   files (world (run WIN32 state_init [Acquire ''stellar.lock'', Release ''stellar.lock''])) =
     {} \<and>
   exists WIN32
     (world (run WIN32 state_init [Acquire ''stellar.lock'', Release ''stellar.lock'']))
     ''stellar.lock'' = Inr False"
proof -
  let ?p = "''stellar.lock''"
  let ?s1 = "\<lparr>world = os_empty\<lparr>files := {[?p]},
                handles := [(3, \<lparr>ofd_node = [?p], ofd_flock = False,
                                 ofd_delete_on_close = True\<rparr>)],
                next_handle := 4\<rparr>,
              lockMap = [(?p, 3)]\<rparr>"
  let ?s2 = "\<lparr>world = os_empty\<lparr>files := {}, handles := [], next_handle := 4\<rparr>,
              lockMap = []\<rparr>"
  have lock: "lockFile WIN32 state_init ?p = Inr (True, ?s1)"
    by (simp add: state_init_def os_empty_def lockFile_win32_def smap_find_def
        win_CreateFile_def resolve_def c_str_def components_def absolute_def
        trailing_slash_def step_def is_dir_def INVALID_HANDLE_VALUE_def smap_insert_def
        Let_def)
  have unlock: "unlockFile WIN32 ?s1 ?p = Inr ?s2"
    by (simp add: os_empty_def unlockFile_win32_def smap_find_def win_CloseHandle_def)
  from lock have r1: "run WIN32 state_init [Acquire ?p] = ?s1"
    by (simp add: run_def)
  from lock unlock have r2: "run WIN32 state_init [Acquire ?p, Release ?p] = ?s2"
    by (simp add: run_def)
  show ?thesis
    unfolding r1 r2 using lock unlock by (simp add: os_eval)
qed

subsection \<open>Path operations\<close>




text \<open>
  Claim C8. On POSIX \<open>exists\<close> returns false exactly when \<^verbatim>\<open>stat\<close> fails with \<^verbatim>\<open>ENOENT\<close>,
  the one code of the system for a name that is not found, whether the last part of the
  name or a directory on the way is missing, and throws on every other failure, as the
  claim says. On Windows the system has two codes for a name that is not found,
  \<^verbatim>\<open>ERROR_FILE_NOT_FOUND\<close> where the last part is missing and \<^verbatim>\<open>ERROR_PATH_NOT_FOUND\<close> where
  a directory on the way is, and \<open>exists\<close> compares with the first only. On the empty
  machine, at \<^verbatim>\<open>x/y\<close>, whose directory \<^verbatim>\<open>x\<close> is missing: the Windows query fails with
  \<^verbatim>\<open>ERROR_PATH_NOT_FOUND\<close> and \<open>exists\<close> throws "error accessing path: x/y", where the
  claim says false; \<^verbatim>\<open>stat\<close> fails with \<^verbatim>\<open>ENOENT\<close> and \<open>exists\<close> returns false on POSIX.
\<close>

theorem exists_win32_path_not_found:
  "win_GetFileAttributes os_empty ''x/y'' = Failure ERROR_PATH_NOT_FOUND \<and>
   exists WIN32 os_empty ''x/y'' = Inl (AccessError ''x/y'') \<and>
   sys_stat os_empty ''x/y'' = Failure ENOENT \<and>
   exists POSIX os_empty ''x/y'' = Inr False"
  by (simp add: os_eval)

text \<open>
  Claim C9. On both platforms and on every machine, \<open>mkpath\<close> of a path that begins
  with \<^verbatim>\<open>/\<close> returns false and leaves the machine as it was, no directory made: the
  first name of its walk is the empty string, which \<open>exists\<close> does not find and
  \<open>mkdir\<close> cannot make.
\<close>

theorem mkpath_absolute_fails:
  "mkpath plat w (CHR ''/'' # rest) = (w, Inr False) \<and>
   hd (path_prefixes (CHR ''/'' # rest)) = [] \<and>
   exists plat w [] = Inr False \<and> mkdir w [] = (False, w)"
proof -
  obtain ps where "path_prefixes (CHR ''/'' # rest) = [] # ps"
    using path_prefixes_slash by blast
  then show ?thesis
    by (simp add: mkpath_absolute exists_empty mkdir_empty)
qed

text \<open>The theorem at \<^verbatim>\<open>/var/lib/stellar\<close> on the empty machine.\<close>

lemma mkpath_absolute_example:
  "mkpath POSIX os_empty ''/var/lib/stellar'' = (os_empty, Inr False)"
  by (rule mkpath_absolute)

end
